theory Spec2Isabelle
  imports
    Complex_Main
    "HOL-Library.Sublist"
    "HOL-Library.Multiset"
    "HOL-Library.Char_ord"
    "HOL-Library.List_Lexorder"
begin

section \<open>Data model\<close>

text \<open>
  Strings of the TypeScript source are sequences of UTF-16 code units. They are modelled
  as \<^typ>\<open>string\<close>, each \<^typ>\<open>char\<close> read as the code unit of the same number
  (U+0000 to U+00FF). Numbers that hold similarity scores and thresholds are modelled as
  rationals: a score is the exact quotient of two set sizes. Time stamps and character
  counts are integers.

  A \<open>TFile\<close> of the host is reduced to the three fields the core reads.
\<close>

record tfile =
  path :: string
  basename :: string
  mtime :: int

text \<open>\<open>DuplicateCandidate\<close>: the two optional fields are \<open>None\<close> while undefined.\<close>

record candidate =
  file1 :: tfile
  file2 :: tfile
  cand_titleSimilarity :: rat
  cand_contentSimilarity :: "rat option"
  likelyDuplicate :: "bool option"

text \<open>
  \<open>DuplicateGroup\<close>. A JavaScript \<open>Set\<close> iterates in insertion order, so the set of
  original titles is a list without repetition, in insertion order.
\<close>

record dgroup =
  normalizedTitle :: string
  originalTitles :: "string list"
  files :: "tfile list"
  candidates :: "candidate list"

record settings =
  titleSimilarityThreshold :: rat
  enableContentSimilarity :: bool
  contentSimilarityThreshold :: rat
  contentCharsToAnalyze :: int
  ignoredFolders :: "string list"

record serialized_group =
  s_normalizedTitle :: string
  s_originalTitles :: "string list"
  filePaths :: "string list"

record entry_settings =
  titleThreshold :: rat
  enableContent :: bool
  contentThreshold :: rat
  contentChars :: int

record cache_entry =
  folderPath :: string
  scanTimestamp :: int
  fileCount :: nat
  maxMtime :: int
  groups :: "serialized_group list"
  esettings :: entry_settings

text \<open>
  Values of parsed front matter, as far as \<open>parseExclusionTargets\<close> tells them apart:
  a string, an array, or anything else.
\<close>

datatype yaml = YString string | YArray "yaml list" | YOther

text \<open>
  The part of the host application the core consults: the list of markdown files, the
  lookup of a file by its path, the value stored under the key \<open>duplicate-exclusion\<close>
  in a file's cached front matter (\<open>None\<close> when the cache, the front matter or the key is
  absent or null), and the content of a file (\<open>None\<close> when the read fails). The vault is
  taken as a snapshot: it does not change while one operation runs.
\<close>

record app =
  getMarkdownFiles :: "tfile list"
  getFileByPath :: "string \<Rightarrow> tfile option"
  exclusionFrontmatter :: "tfile \<Rightarrow> yaml option"
  cachedRead :: "tfile \<Rightarrow> string option"

text \<open>Insertion into a JavaScript \<open>Set\<close> kept as a list in insertion order.\<close>

definition set_add :: "'a \<Rightarrow> 'a list \<Rightarrow> 'a list" where
  "set_add x xs = (if x \<in> set xs then xs else xs @ [x])"

definition new_Set :: "'a list \<Rightarrow> 'a list" where
  "new_Set xs = foldl (\<lambda>acc x. set_add x acc) [] xs"

section \<open>Strings as the JavaScript library treats them\<close>

text \<open>
  Character classes of the regular expressions, on code units below 256: \<open>[A-Z]\<close>,
  \<open>\d\<close>, \<open>\w\<close> and \<open>\s\<close> (tab, line feed, vertical tab, form feed, carriage return,
  space and the no-break space U+00A0; the same set is what \<open>trim\<close> removes).
\<close>

definition is_upper :: "char \<Rightarrow> bool" where
  "is_upper c = (CHR ''A'' \<le> c \<and> c \<le> CHR ''Z'')"

definition is_digit :: "char \<Rightarrow> bool" where
  "is_digit c = (CHR ''0'' \<le> c \<and> c \<le> CHR ''9'')"

definition is_word :: "char \<Rightarrow> bool" where
  "is_word c = ((CHR ''a'' \<le> c \<and> c \<le> CHR ''z'') \<or> is_upper c \<or> is_digit c \<or> c = CHR ''_'')"

definition is_space :: "char \<Rightarrow> bool" where
  "is_space c = ((CHR 0x09 \<le> c \<and> c \<le> CHR 0x0D) \<or> c = CHR '' '' \<or> c = CHR 0xA0)"

text \<open>
  \<open>toLowerCase\<close> on one code unit: the letters A to Z and the capital letters of
  Latin-1 (U+00C0 to U+00DE without the multiplication sign U+00D7) move up by 32.
\<close>

definition toLowerChar :: "char \<Rightarrow> char" where
  "toLowerChar c =
    (if is_upper c \<or> (CHR 0xC0 \<le> c \<and> c \<le> CHR 0xDE \<and> c \<noteq> CHR 0xD7)
     then char_of (of_char c + (32::nat)) else c)"

definition toLowerCase :: "string \<Rightarrow> string" where
  "toLowerCase s = map toLowerChar s"

definition trim :: "string \<Rightarrow> string" where
  "trim s = rev (dropWhile is_space (rev (dropWhile is_space s)))"

text \<open>
  \<open>s.split(/\s+/)\<close>: the pieces between the maximal runs of white space; a run at the
  start or at the end leaves an empty piece there, and the empty string gives one empty
  piece.
\<close>

function split_ws :: "string \<Rightarrow> string list" where
  "split_ws s =
    (case dropWhile (\<lambda>c. \<not> is_space c) s of
       [] \<Rightarrow> [s]
     | r # rs \<Rightarrow> takeWhile (\<lambda>c. \<not> is_space c) s # split_ws (dropWhile is_space rs))"
  by pat_completeness auto
termination
proof (relation "measure length")
  show "wf (measure length)" by simp
next
  fix s :: string and r rs
  assume a: "dropWhile (\<lambda>c. \<not> is_space c) s = r # rs"
  have "length (dropWhile is_space rs) \<le> length rs"
    by (rule length_dropWhile_le)
  also have "length rs < length (dropWhile (\<lambda>c. \<not> is_space c) s)"
    using a by simp
  also have "\<dots> \<le> length s"
    by (rule length_dropWhile_le)
  finally show "(dropWhile is_space rs, s) \<in> measure length" by simp
qed

text \<open>\<open>parts.join(sep)\<close>.\<close>

fun js_join :: "string \<Rightarrow> string list \<Rightarrow> string" where
  "js_join sep [] = []"
| "js_join sep [p] = p"
| "js_join sep (p # q # ps) = p @ sep @ js_join sep (q # ps)"

text \<open>
  \<open>s.split(sep)\<close> for a string separator that is not empty: the occurrences of the
  separator are found from left to right and do not overlap. (For the empty separator
  JavaScript splits into code units; the source only splits at three hyphens, and the
  model returns the string whole.)
\<close>

function js_split :: "string \<Rightarrow> string \<Rightarrow> string \<Rightarrow> string list" where
  "js_split sep cur [] = [rev cur]"
| "js_split sep cur (c # cs) =
    (if sep \<noteq> [] \<and> prefix sep (c # cs)
     then rev cur # js_split sep [] (drop (length sep) (c # cs))
     else js_split sep (c # cur) cs)"
  by pat_completeness auto
termination
  by (relation "measure (\<lambda>(sep, cur, s). length s)") auto

text \<open>\<open>s.match(/\w+/g) || []\<close>: the maximal runs of word characters, from left to right.\<close>

function match_words :: "string \<Rightarrow> string list" where
  "match_words s =
    (case dropWhile (\<lambda>c. \<not> is_word c) s of
       [] \<Rightarrow> []
     | r # rs \<Rightarrow> takeWhile is_word (r # rs) # match_words (dropWhile is_word (r # rs)))"
  by pat_completeness auto
termination
proof (relation "measure length")
  show "wf (measure length)" by simp
next
  fix s :: string and r rs
  assume a: "dropWhile (\<lambda>c. \<not> is_word c) s = r # rs"
  then have "r \<in> set (dropWhile (\<lambda>c. \<not> is_word c) s)" by simp
  from a have "is_word r"
    using hd_dropWhile [of "\<lambda>c. \<not> is_word c" s] by auto
  then have "length (dropWhile is_word (r # rs)) \<le> length rs"
    by (simp add: length_dropWhile_le)
  also have "length rs < length (dropWhile (\<lambda>c. \<not> is_word c) s)"
    using a by simp
  also have "\<dots> \<le> length s"
    by (rule length_dropWhile_le)
  finally show "(dropWhile is_word (r # rs), s) \<in> measure length" by simp
qed

text \<open>The characters a normalized title is made of, space apart: \<open>[a-z0-9_]\<close>.\<close>

definition lower_word :: "char \<Rightarrow> bool" where
  "lower_word c = (is_word c \<and> \<not> is_upper c)"

text \<open>A list of words as a normalized title joins them: no word is empty, and every
  character of a word is one of \<open>[a-z0-9_]\<close>.\<close>

definition normal_tokens :: "string list \<Rightarrow> bool" where
  "normal_tokens ts = (\<forall>t \<in> set ts. t \<noteq> [] \<and> (\<forall>c \<in> set t. lower_word c))"

section \<open>Title and content similarity (similarity/title.ts, similarity/content.ts)\<close>

text \<open>
  \<open>replace(/\.md$/i, "")\<close>: without the multiline flag \<open>$\<close> is the end of the string,
  and under the \<open>i\<close> flag only \<open>m\<close>, \<open>M\<close>, \<open>d\<close> and \<open>D\<close> match the two letters.
\<close>

definition strip_md :: "string \<Rightarrow> string" where
  "strip_md s =
    (case rev s of
       d # m # dot # r \<Rightarrow>
         if dot = CHR ''.'' \<and> (m = CHR ''m'' \<or> m = CHR ''M'') \<and> (d = CHR ''d'' \<or> d = CHR ''D'')
         then rev r else s
     | _ \<Rightarrow> s)"

text \<open>
  \<open>replace(/^\[?[A-Z]{2,4}\d+\]?\s*/, "")\<close>. The match is anchored at the start. An
  opening bracket is skipped when present (without it the letters cannot start at a
  bracket). The leading capital letters must number two to four and a digit must follow
  them: with five or more capitals every admissible count of letters is followed by a
  capital, not by a digit. All digits, then a closing bracket when present, then all
  white space are consumed.
\<close>

definition strip_index_prefix :: "string \<Rightarrow> string" where
  "strip_index_prefix s =
    (let body = (case s of c # cs \<Rightarrow> if c = CHR ''['' then cs else s | [] \<Rightarrow> s);
         letters = takeWhile is_upper body;
         rest = dropWhile is_upper body;
         digits = takeWhile is_digit rest;
         rest2 = dropWhile is_digit rest
     in if 2 \<le> length letters \<and> length letters \<le> 4 \<and> digits \<noteq> []
        then dropWhile is_space
               (case rest2 of c # cs \<Rightarrow> if c = CHR '']'' then cs else rest2 | [] \<Rightarrow> rest2)
        else s)"

text \<open>
  \<open>replace(/^\d+\.\d+\s*/, "")\<close>: all leading digits (at least one), a full stop, all
  following digits (at least one), then all white space.
\<close>

definition strip_decimal_prefix :: "string \<Rightarrow> string" where
  "strip_decimal_prefix s =
    (let digits = takeWhile is_digit s in
     case dropWhile is_digit s of
       dot # r \<Rightarrow>
         if digits \<noteq> [] \<and> dot = CHR ''.'' \<and> takeWhile is_digit r \<noteq> []
         then dropWhile is_space (dropWhile is_digit r) else s
     | [] \<Rightarrow> s)"

definition normalizeTitle :: "string \<Rightarrow> string" where
  "normalizeTitle title =
    (let normalized = strip_md title;
         normalized = strip_index_prefix normalized;
         normalized = strip_decimal_prefix normalized;
         normalized = toLowerCase normalized;
         normalized = filter (\<lambda>c. is_word c \<or> is_space c) normalized
     in js_join '' '' (filter (\<lambda>w. w \<noteq> []) (split_ws normalized)))"

text \<open>Jaccard similarity of two JavaScript sets, as both similarity functions compute it.\<close>

definition jaccard :: "string list \<Rightarrow> string list \<Rightarrow> rat" where
  "jaccard words1 words2 =
    (if length words1 = 0 \<or> length words2 = 0 then 0
     else
       let intersection = new_Set (filter (\<lambda>x. x \<in> set words2) words1);
           union = new_Set (words1 @ words2)
       in of_nat (length intersection) / of_nat (length union))"

definition titleSimilarity :: "string \<Rightarrow> string \<Rightarrow> rat" where
  "titleSimilarity title1 title2 =
    (let norm1 = normalizeTitle title1;
         norm2 = normalizeTitle title2;
         words1 = new_Set (filter (\<lambda>w. w \<noteq> []) (split_ws norm1));
         words2 = new_Set (filter (\<lambda>w. w \<noteq> []) (split_ws norm2))
     in jaccard words1 words2)"

definition extractBody :: "string \<Rightarrow> string" where
  "extractBody content =
    (if prefix ''---'' content
     then (let parts = js_split ''---'' [] content in
           if length parts \<ge> 3 then trim (js_join ''---'' (drop 2 parts)) else trim content)
     else trim content)"

text \<open>\<open>substring(0, maxChars)\<close> keeps the first \<open>maxChars\<close> code units, none when
  \<open>maxChars\<close> is negative.\<close>

definition contentSimilarity :: "string \<Rightarrow> string \<Rightarrow> int \<Rightarrow> rat" where
  "contentSimilarity content1 content2 maxChars =
    (let body1 = take (nat maxChars) (extractBody content1);
         body2 = take (nat maxChars) (extractBody content2);
         words1 = new_Set (filter (\<lambda>w. w \<noteq> []) (match_words (toLowerCase body1)));
         words2 = new_Set (filter (\<lambda>w. w \<noteq> []) (match_words (toLowerCase body2)))
     in jaccard words1 words2)"

text \<open>
  The body as the amended claim C8 words it. \<open>find_sub sep s\<close> is the position of the
  first occurrence of \<open>sep\<close> in \<open>s\<close>. When the content starts with three hyphens and
  three hyphens occur again after them, the body is what follows that second occurrence;
  otherwise it is the content.
\<close>

fun find_sub :: "string \<Rightarrow> string \<Rightarrow> nat option" where
  "find_sub sep [] = (if sep = [] then Some 0 else None)"
| "find_sub sep (c # cs) =
    (if prefix sep (c # cs) then Some 0 else map_option Suc (find_sub sep cs))"

definition body_after_front_matter :: "string \<Rightarrow> string" where
  "body_after_front_matter content =
    (if prefix ''---'' content
     then (case find_sub ''---'' (drop 3 content) of
             Some i \<Rightarrow> drop (3 + i + 3) content
           | None \<Rightarrow> content)
     else content)"

section \<open>Scanner (scanner/index.ts)\<close>

text \<open>
  The scan reads \<open>signal.aborted\<close> at fixed places. Every reading is an input of the
  model: the reading at the start of iteration \<open>i\<close> of the comparing loop and of the
  refining loop, the two readings of \<open>scanForDuplicates\<close> after each loop, and the
  reading of the orchestrator after the scan. An absent signal reads \<open>False\<close> everywhere.
  The progress callback and the yields to the event loop do not influence the value
  returned and are left out.
\<close>

record signal =
  aborted_comparing :: "nat \<Rightarrow> bool"
  aborted_after_comparing :: bool
  aborted_refining :: "nat \<Rightarrow> bool"
  aborted_after_refining :: bool
  aborted_after_scan :: bool

definition never_aborted :: signal where
  "never_aborted = \<lparr> aborted_comparing = (\<lambda>_. False), aborted_after_comparing = False,
                      aborted_refining = (\<lambda>_. False), aborted_after_refining = False,
                      aborted_after_scan = False \<rparr>"

definition always_aborted :: signal where
  "always_aborted = \<lparr> aborted_comparing = (\<lambda>_. True), aborted_after_comparing = True,
                       aborted_refining = (\<lambda>_. True), aborted_after_refining = True,
                       aborted_after_scan = True \<rparr>"

text \<open>The only exception the scanning code itself can raise: a property read on
  \<open>undefined\<close>.\<close>

datatype error = TypeError

text \<open>\<open>path.includes(ignore)\<close>.\<close>

fun str_includes :: "string \<Rightarrow> string \<Rightarrow> bool" where
  "str_includes [] sub = (sub = [])"
| "str_includes (c # cs) sub = (prefix sub (c # cs) \<or> str_includes cs sub)"

definition shouldSkipPath :: "string \<Rightarrow> string list \<Rightarrow> bool" where
  "shouldSkipPath p ignored =
    (if \<exists>ignore \<in> set ignored. str_includes p ignore then True
     else if \<exists>part \<in> set (js_split ''/'' [] p). prefix ''.'' part then True
     else False)"

text \<open>A folder is given by its path; the root folder has the path \<open>/\<close>.\<close>

definition collectMarkdownFiles :: "app \<Rightarrow> string \<Rightarrow> string list \<Rightarrow> tfile list" where
  "collectMarkdownFiles a folder ignored =
    (let pre = (if folder = ''/'' then '''' else folder @ ''/'') in
     filter (\<lambda>f. (pre = '''' \<or> prefix pre (path f)) \<and> \<not> shouldSkipPath (path f) ignored)
       (getMarkdownFiles a))"

definition wordSet :: "string \<Rightarrow> string list" where
  "wordSet b = new_Set (filter (\<lambda>w. w \<noteq> []) (split_ws (normalizeTitle b)))"

subsection \<open>findTitleDuplicates with the inverted index\<close>

text \<open>
  The index maps a word to the indices of the files seen so far that have it, in the
  order they were added. The candidate indices are a \<open>Set\<close>, filled bucket by bucket in
  the order of the words of the current file.
\<close>

definition collect_candidates :: "(string \<Rightarrow> nat list option) \<Rightarrow> string list \<Rightarrow> nat list" where
  "collect_candidates idx words =
    foldl (\<lambda>cands w. case idx w of
                        None \<Rightarrow> cands
                      | Some bucket \<Rightarrow> foldl (\<lambda>cs j. set_add j cs) cands bucket)
          [] words"

text \<open>
  Scoring the candidates of the current file. \<open>wordSets.get(j)!\<close> is used at once, so
  a missing entry raises a \<open>TypeError\<close>. An index \<open>j\<close> outside \<open>files\<close> would put
  \<open>undefined\<close> into the candidate, which fails when the candidate is next used; the
  model fails at this point.
\<close>

fun score_candidates ::
  "tfile list \<Rightarrow> (nat \<Rightarrow> string list option) \<Rightarrow> tfile \<Rightarrow> string list \<Rightarrow> rat \<Rightarrow>
   nat list \<Rightarrow> candidate list \<Rightarrow> error + candidate list" where
  "score_candidates fs wordSets file words titleThr [] duplicates = Inr duplicates"
| "score_candidates fs wordSets file words titleThr (j # js) duplicates =
    (case wordSets j of
       None \<Rightarrow> Inl TypeError
     | Some otherWords \<Rightarrow>
        (let intersectionCount = length (filter (\<lambda>w. w \<in> set otherWords) words);
             unionSize = length words + length otherWords - intersectionCount;
             sim = (if unionSize = 0 then 0 else of_nat intersectionCount / of_nat unionSize)
         in if sim \<ge> titleThr
            then (if j < length fs
                  then score_candidates fs wordSets file words titleThr js
                         (duplicates @ [\<lparr> file1 = fs ! j, file2 = file,
                                          cand_titleSimilarity = sim,
                                          cand_contentSimilarity = None,
                                          likelyDuplicate = None \<rparr>])
                  else Inl TypeError)
            else score_candidates fs wordSets file words titleThr js duplicates))"

definition insert_index ::
  "(string \<Rightarrow> nat list option) \<Rightarrow> string list \<Rightarrow> nat \<Rightarrow> (string \<Rightarrow> nat list option)" where
  "insert_index idx words i =
    foldl (\<lambda>ix w. ix(w \<mapsto> (case ix w of None \<Rightarrow> [] | Some bucket \<Rightarrow> bucket) @ [i])) idx words"

text \<open>The loop over \<open>i\<close>; the state is the index, the word sets and the duplicates.\<close>

function ftd_loop ::
  "tfile list \<Rightarrow> rat \<Rightarrow> (nat \<Rightarrow> bool) \<Rightarrow> nat \<Rightarrow>
   (string \<Rightarrow> nat list option) \<Rightarrow> (nat \<Rightarrow> string list option) \<Rightarrow> candidate list \<Rightarrow>
   error + candidate list" where
  "ftd_loop fs titleThr aborted i idx wordSets duplicates =
    (if i < length fs then
       (if aborted i then Inr duplicates
        else
          (let file = fs ! i;
               words = wordSet (basename file);
               wordSets' = wordSets(i \<mapsto> words);
               candidateIndices = collect_candidates idx words
           in case score_candidates fs wordSets' file words titleThr candidateIndices duplicates of
                Inl e \<Rightarrow> Inl e
              | Inr duplicates' \<Rightarrow>
                  ftd_loop fs titleThr aborted (Suc i) (insert_index idx words i) wordSets' duplicates'))
     else Inr duplicates)"
  by pat_completeness auto
termination
  by (relation "measure (\<lambda>(fs, titleThr, aborted, i, idx, wordSets, duplicates). length fs - i)") auto

text \<open>\<open>duplicates.sort((a, b) => b.titleSimilarity - a.titleSimilarity)\<close>: a stable sort,
  larger similarity first.\<close>

definition sort_by_title :: "candidate list \<Rightarrow> candidate list" where
  "sort_by_title cs = sort_key (\<lambda>c. - cand_titleSimilarity c) cs"

definition findTitleDuplicates :: "tfile list \<Rightarrow> rat \<Rightarrow> signal \<Rightarrow> error + candidate list" where
  "findTitleDuplicates fs titleThr sg =
    (case ftd_loop fs titleThr (aborted_comparing sg) 0 Map.empty Map.empty [] of
       Inl e \<Rightarrow> Inl e
     | Inr duplicates \<Rightarrow> Inr (sort_by_title duplicates))"

subsection \<open>findTitleDuplicates, the earlier version that compares all pairs\<close>

text \<open>\<open>[file1.path, file2.path].sort().join("|")\<close>.\<close>

definition pairKey :: "string \<Rightarrow> string \<Rightarrow> string" where
  "pairKey p1 p2 = js_join ''|'' (sort [p1, p2])"

fun naive_inner ::
  "tfile \<Rightarrow> rat \<Rightarrow> tfile list \<Rightarrow> string set \<times> candidate list \<Rightarrow> string set \<times> candidate list" where
  "naive_inner f1 titleThr [] st = st"
| "naive_inner f1 titleThr (f2 # rest) (checkedPairs, duplicates) =
    (let key = pairKey (path f1) (path f2) in
     if key \<in> checkedPairs then naive_inner f1 titleThr rest (checkedPairs, duplicates)
     else
       (let tSim = titleSimilarity (basename f1) (basename f2) in
        naive_inner f1 titleThr rest
          (insert key checkedPairs,
           if tSim \<ge> titleThr
           then duplicates @ [\<lparr> file1 = f1, file2 = f2, cand_titleSimilarity = tSim,
                                cand_contentSimilarity = None, likelyDuplicate = None \<rparr>]
           else duplicates)))"

fun naive_outer ::
  "rat \<Rightarrow> tfile list \<Rightarrow> string set \<times> candidate list \<Rightarrow> string set \<times> candidate list" where
  "naive_outer titleThr [] st = st"
| "naive_outer titleThr (f1 # rest) st = naive_outer titleThr rest (naive_inner f1 titleThr rest st)"

definition findTitleDuplicates_naive :: "tfile list \<Rightarrow> rat \<Rightarrow> candidate list" where
  "findTitleDuplicates_naive fs titleThr = sort_by_title (snd (naive_outer titleThr fs ({}, [])))"

text \<open>
  The all-pairs comparison as claim C1 words it: every pair of an earlier and a later
  file whose \<open>titleSimilarity\<close> reaches the threshold, once, the earlier file first.
\<close>

definition title_pair :: "tfile \<Rightarrow> tfile \<Rightarrow> candidate" where
  "title_pair f g = \<lparr> file1 = f, file2 = g,
                      cand_titleSimilarity = titleSimilarity (basename f) (basename g),
                      cand_contentSimilarity = None, likelyDuplicate = None \<rparr>"

definition all_pairs_spec :: "tfile list \<Rightarrow> rat \<Rightarrow> candidate list" where
  "all_pairs_spec fs titleThr =
    concat (map (\<lambda>i. map (\<lambda>j. title_pair (fs ! j) (fs ! i))
                       (filter (\<lambda>j. titleSimilarity (basename (fs ! j)) (basename (fs ! i)) \<ge> titleThr)
                               [0..<i]))
                [0..<length fs])"

subsection \<open>refineWithContent\<close>

text \<open>One turn of the loop body: the \<open>try\<close> block with its two reads, and the \<open>catch\<close>.\<close>

definition refine_one :: "app \<Rightarrow> rat \<Rightarrow> int \<Rightarrow> candidate \<Rightarrow> candidate" where
  "refine_one a contentThr maxChars item =
    (case cachedRead a (file1 item) of
       None \<Rightarrow> item\<lparr> cand_contentSimilarity := None, likelyDuplicate := Some False \<rparr>
     | Some content1 \<Rightarrow>
        (case cachedRead a (file2 item) of
           None \<Rightarrow> item\<lparr> cand_contentSimilarity := None, likelyDuplicate := Some False \<rparr>
         | Some content2 \<Rightarrow>
            (let cSim = contentSimilarity content1 content2 maxChars in
             item\<lparr> cand_contentSimilarity := Some cSim,
                   likelyDuplicate := Some (cSim \<ge> contentThr) \<rparr>)))"

fun refine_loop ::
  "app \<Rightarrow> rat \<Rightarrow> int \<Rightarrow> (nat \<Rightarrow> bool) \<Rightarrow> nat \<Rightarrow> candidate list \<Rightarrow> candidate list \<Rightarrow> candidate list" where
  "refine_loop a contentThr maxChars aborted i [] refined = refined"
| "refine_loop a contentThr maxChars aborted i (item # rest) refined =
    (if aborted i then refined
     else refine_loop a contentThr maxChars aborted (Suc i) rest
            (refined @ [refine_one a contentThr maxChars item]))"

text \<open>\<open>a.titleSimilarity + (a.contentSimilarity || 0)\<close>.\<close>

definition combined_score :: "candidate \<Rightarrow> rat" where
  "combined_score c =
    cand_titleSimilarity c + (case cand_contentSimilarity c of None \<Rightarrow> 0 | Some s \<Rightarrow> s)"

definition refineWithContent :: "app \<Rightarrow> candidate list \<Rightarrow> rat \<Rightarrow> int \<Rightarrow> signal \<Rightarrow> candidate list" where
  "refineWithContent a cs contentThr maxChars sg =
    sort_key (\<lambda>c. - combined_score c)
      (refine_loop a contentThr maxChars (aborted_refining sg) 0 cs [])"


subsection \<open>groupDuplicates\<close>

text \<open>The \<open>Map\<close> from normalized title to group keeps the order in which the keys were
  first set: it is a list of groups with distinct titles.\<close>

fun update_group :: "string \<Rightarrow> (dgroup \<Rightarrow> dgroup) \<Rightarrow> dgroup list \<Rightarrow> dgroup list" where
  "update_group k f [] = []"
| "update_group k f (g # gs) =
    (if normalizedTitle g = k then f g # gs else g # update_group k f gs)"

definition push_file :: "tfile \<Rightarrow> tfile list \<Rightarrow> tfile list" where
  "push_file f fs = (if \<exists>g \<in> set fs. path g = path f then fs else fs @ [f])"

definition add_candidate :: "candidate \<Rightarrow> dgroup \<Rightarrow> dgroup" where
  "add_candidate c g =
    g\<lparr> originalTitles := set_add (basename (file2 c)) (set_add (basename (file1 c)) (originalTitles g)),
       candidates := candidates g @ [c],
       files := push_file (file2 c) (push_file (file1 c) (files g)) \<rparr>"

definition group_step :: "dgroup list \<Rightarrow> candidate \<Rightarrow> dgroup list" where
  "group_step titleGroups c =
    (let normTitle = normalizeTitle (basename (file1 c));
         titleGroups' =
           (if \<exists>g \<in> set titleGroups. normalizedTitle g = normTitle then titleGroups
            else titleGroups @ [\<lparr> normalizedTitle = normTitle, originalTitles = [],
                                   files = [], candidates = [] \<rparr>])
     in update_group normTitle (add_candidate c) titleGroups')"

definition groupDuplicates :: "candidate list \<Rightarrow> dgroup list" where
  "groupDuplicates cs = sort_key (\<lambda>g. - int (length (files g))) (foldl group_step [] cs)"

definition findByPattern :: "tfile list \<Rightarrow> string list \<Rightarrow> tfile list" where
  "findByPattern fs patterns =
    (let lowerPatterns = map toLowerCase patterns in
     filter (\<lambda>f. \<exists>pattern \<in> set lowerPatterns. str_includes (toLowerCase (basename f)) pattern) fs)"

subsection \<open>Exclusions\<close>

text \<open>\<open>s.replace(/^\[\[/, "")\<close>, \<open>s.replace(/\]\]$/, "")\<close> and the cut at the first \<open>|\<close>.\<close>

definition strip_open_brackets :: "string \<Rightarrow> string" where
  "strip_open_brackets s = (if prefix ''[['' s then drop 2 s else s)"

definition strip_close_brackets :: "string \<Rightarrow> string" where
  "strip_close_brackets s = (if suffix '']]'' s then take (length s - 2) s else s)"

definition clean_target :: "string \<Rightarrow> string" where
  "clean_target v =
    (let s = trim v;
         s = strip_close_brackets (strip_open_brackets s);
         s = takeWhile (\<lambda>c. c \<noteq> CHR ''|'') s
     in trim s)"

fun parseExclusionTargets :: "yaml \<Rightarrow> string list" where
  "parseExclusionTargets (YString v) = (let s = clean_target v in if s \<noteq> [] then [s] else [])"
| "parseExclusionTargets (YArray items) = concat (map parseExclusionTargets items)"
| "parseExclusionTargets YOther = []"

definition resolveLink :: "app \<Rightarrow> string \<Rightarrow> string option" where
  "resolveLink a target =
    (case getFileByPath a target of
       Some exact \<Rightarrow> Some (path exact)
     | None \<Rightarrow>
        (case getFileByPath a (target @ ''.md'') of
           Some exactMd \<Rightarrow> Some (path exactMd)
         | None \<Rightarrow>
            (case find (\<lambda>f. toLowerCase (basename f) = toLowerCase target) (getMarkdownFiles a) of
               Some f \<Rightarrow> Some (path f)
             | None \<Rightarrow> None)))"

definition resolve_targets :: "app \<Rightarrow> string list \<Rightarrow> string list" where
  "resolve_targets a targets =
    foldl (\<lambda>resolved target. case resolveLink a target of
                                None \<Rightarrow> resolved
                              | Some p \<Rightarrow> if p \<noteq> [] then set_add p resolved else resolved)
          [] targets"

definition buildExclusionMap :: "app \<Rightarrow> tfile list \<Rightarrow> (string \<Rightarrow> string list option)" where
  "buildExclusionMap a fs =
    foldl (\<lambda>m f. case exclusionFrontmatter a f of
                    None \<Rightarrow> m
                  | Some raw \<Rightarrow>
                     (let resolved = resolve_targets a (parseExclusionTargets raw) in
                      if length resolved > 0 then m(path f \<mapsto> resolved) else m))
          Map.empty fs"

definition keep_candidate :: "(string \<Rightarrow> string list option) \<Rightarrow> candidate \<Rightarrow> bool" where
  "keep_candidate exclusionMap c =
    (if (case exclusionMap (path (file1 c)) of
           Some exc1 \<Rightarrow> path (file2 c) \<in> set exc1 | None \<Rightarrow> False)
     then False
     else if (case exclusionMap (path (file2 c)) of
                Some exc2 \<Rightarrow> path (file1 c) \<in> set exc2 | None \<Rightarrow> False)
     then False
     else True)"

definition filterExcludedCandidates ::
  "candidate list \<Rightarrow> (string \<Rightarrow> string list option) \<Rightarrow> candidate list" where
  "filterExcludedCandidates cs exclusionMap = filter (keep_candidate exclusionMap) cs"


subsection \<open>The full scan\<close>

definition scanForDuplicates ::
  "app \<Rightarrow> string \<Rightarrow> settings \<Rightarrow> bool \<Rightarrow> signal \<Rightarrow> error + dgroup list" where
  "scanForDuplicates a folder cfg refine sg =
    (let fs = collectMarkdownFiles a folder (ignoredFolders cfg) in
     if length fs < 2 then Inr []
     else
       (case findTitleDuplicates fs (titleSimilarityThreshold cfg) sg of
          Inl e \<Rightarrow> Inl e
        | Inr cs \<Rightarrow>
           if aborted_after_comparing sg then Inr []
           else
             (let exclusionMap = buildExclusionMap a fs;
                  cs = filterExcludedCandidates cs exclusionMap;
                  cs = (if refine \<and> length cs > 0
                        then refineWithContent a cs (contentSimilarityThreshold cfg)
                               (contentCharsToAnalyze cfg) sg
                        else cs)
              in if aborted_after_refining sg then Inr []
                 else Inr (groupDuplicates cs))))"

section \<open>Cache manager (cache.ts)\<close>

record cache_manager =
  entries :: "string \<Rightarrow> cache_entry option"
  dirtyPaths :: "string set"

text \<open>The loop \<open>for (const f of files) if (f.stat.mtime > maxMtime) maxMtime = f.stat.mtime\<close>,
  started at 0.\<close>

definition computeMaxMtime :: "tfile list \<Rightarrow> int" where
  "computeMaxMtime fs = foldl (\<lambda>m f. if mtime f > m then mtime f else m) 0 fs"

definition isValid :: "cache_manager \<Rightarrow> cache_entry \<Rightarrow> tfile list \<Rightarrow> settings \<Rightarrow> bool" where
  "isValid cm e currentFiles cfg =
    (if dirtyPaths cm \<noteq> {} \<and>
        (folderPath e = ''/'' \<or> (\<exists>d \<in> dirtyPaths cm. prefix (folderPath e @ ''/'') d))
     then False
     else if length currentFiles \<noteq> fileCount e then False
     else if computeMaxMtime currentFiles \<noteq> maxMtime e then False
     else if titleThreshold (esettings e) \<noteq> titleSimilarityThreshold cfg \<or>
             enableContent (esettings e) \<noteq> enableContentSimilarity cfg \<or>
             contentThreshold (esettings e) \<noteq> contentSimilarityThreshold cfg \<or>
             contentChars (esettings e) \<noteq> contentCharsToAnalyze cfg
     then False
     else True)"

definition serialize_group :: "dgroup \<Rightarrow> serialized_group" where
  "serialize_group g =
    \<lparr> s_normalizedTitle = normalizedTitle g,
      s_originalTitles = originalTitles g,
      filePaths = map path (files g) \<rparr>"

text \<open>\<open>put\<close>; the argument \<open>now\<close> is the value of \<open>Date.now()\<close>.\<close>

definition put ::
  "int \<Rightarrow> cache_manager \<Rightarrow> string \<Rightarrow> tfile list \<Rightarrow> dgroup list \<Rightarrow> settings \<Rightarrow> cache_manager" where
  "put now cm fp fs gs cfg =
    cm\<lparr> entries := (entries cm)(fp \<mapsto>
      \<lparr> folderPath = fp,
        scanTimestamp = now,
        fileCount = length fs,
        maxMtime = computeMaxMtime fs,
        groups = map serialize_group gs,
        esettings = \<lparr> titleThreshold = titleSimilarityThreshold cfg,
                      enableContent = enableContentSimilarity cfg,
                      contentThreshold = contentSimilarityThreshold cfg,
                      contentChars = contentCharsToAnalyze cfg \<rparr> \<rparr>) \<rparr>"

text \<open>\<open>deserialize\<close>: paths that no longer resolve are skipped, and a group left with
  fewer than two files is dropped.\<close>

definition resolve_paths :: "app \<Rightarrow> string list \<Rightarrow> tfile list" where
  "resolve_paths a ps = concat (map (\<lambda>p. case getFileByPath a p of None \<Rightarrow> [] | Some f \<Rightarrow> [f]) ps)"

fun deserialize_groups :: "app \<Rightarrow> serialized_group list \<Rightarrow> dgroup list" where
  "deserialize_groups a [] = []"
| "deserialize_groups a (sg # sgs) =
    (let fs = resolve_paths a (filePaths sg) in
     if length fs < 2 then deserialize_groups a sgs
     else \<lparr> normalizedTitle = s_normalizedTitle sg,
            originalTitles = new_Set (s_originalTitles sg),
            files = fs,
            candidates = [] \<rparr> # deserialize_groups a sgs)"

definition deserialize :: "app \<Rightarrow> cache_entry \<Rightarrow> dgroup list" where
  "deserialize a e = deserialize_groups a (groups e)"

text \<open>\<open>get\<close> returns the groups, or \<open>None\<close> for \<open>null\<close>, together with the manager: a
  stale entry is deleted on the way.\<close>

definition get ::
  "app \<Rightarrow> cache_manager \<Rightarrow> string \<Rightarrow> tfile list \<Rightarrow> settings \<Rightarrow> dgroup list option \<times> cache_manager" where
  "get a cm fp currentFiles cfg =
    (case entries cm fp of
       None \<Rightarrow> (None, cm)
     | Some e \<Rightarrow>
         if \<not> isValid cm e currentFiles cfg
         then (None, cm\<lparr> entries := (entries cm)(fp := None) \<rparr>)
         else (Some (deserialize a e), cm))"

definition clearDirtyPathsForFolder :: "cache_manager \<Rightarrow> string \<Rightarrow> cache_manager" where
  "clearDirtyPathsForFolder cm fp =
    (if fp = ''/'' then cm\<lparr> dirtyPaths := {} \<rparr>
     else cm\<lparr> dirtyPaths := {d \<in> dirtyPaths cm. \<not> prefix (fp @ ''/'') d} \<rparr>)"

text \<open>The scope of a cache entry, as the specification words it: the root scope holds
  every path, a folder holds the paths below it.\<close>

definition in_scope :: "string \<Rightarrow> string \<Rightarrow> bool" where
  "in_scope scope p = (scope = ''/'' \<or> prefix (scope @ ''/'') p)"

definition settings_differ :: "entry_settings \<Rightarrow> settings \<Rightarrow> bool" where
  "settings_differ es cfg =
    (titleThreshold es \<noteq> titleSimilarityThreshold cfg \<or>
     enableContent es \<noteq> enableContentSimilarity cfg \<or>
     contentThreshold es \<noteq> contentSimilarityThreshold cfg \<or>
     contentChars es \<noteq> contentCharsToAnalyze cfg)"

definition similarity_config :: "settings \<Rightarrow> entry_settings" where
  "similarity_config cfg =
    \<lparr> titleThreshold = titleSimilarityThreshold cfg,
      enableContent = enableContentSimilarity cfg,
      contentThreshold = contentSimilarityThreshold cfg,
      contentChars = contentCharsToAnalyze cfg \<rparr>"

section \<open>Orchestrator (main.ts)\<close>

text \<open>
  The persisted document \<open>data.json\<close>, reduced to the two sections the core writes: the
  cache entries under \<open>duplicateCache\<close> and the dismissed path lists under
  \<open>dismissedGroups\<close>.
\<close>

record persisted =
  stored_cache :: "string \<Rightarrow> cache_entry option"
  stored_dismissed :: "string list list"

record plugin =
  plugin_settings :: settings
  cacheManager :: cache_manager
  dismissedGroups :: "string list list"
  dismissedSet :: "string set"
  data :: persisted

text \<open>\<open>[...paths].sort().join("\0")\<close>: the default sort orders strings by code units.\<close>

definition dismissal_key :: "string list \<Rightarrow> string" where
  "dismissal_key paths = js_join [CHR 0x00] (sort paths)"

definition rebuildDismissalSet :: "plugin \<Rightarrow> plugin" where
  "rebuildDismissalSet p = p\<lparr> dismissedSet := set (map dismissal_key (dismissedGroups p)) \<rparr>"

definition dismissGroup :: "plugin \<Rightarrow> string list \<Rightarrow> plugin" where
  "dismissGroup p paths =
    (let sorted = sort paths;
         dismissed = dismissedGroups p @ [sorted]
     in p\<lparr> dismissedGroups := dismissed,
           dismissedSet := insert (js_join [CHR 0x00] sorted) (dismissedSet p),
           data := (data p)\<lparr> stored_dismissed := dismissed \<rparr> \<rparr>)"

definition isDismissed :: "plugin \<Rightarrow> string list \<Rightarrow> bool" where
  "isDismissed p paths = (dismissal_key paths \<in> dismissedSet p)"

definition filterDismissedGroups :: "plugin \<Rightarrow> dgroup list \<Rightarrow> dgroup list" where
  "filterDismissedGroups p gs = filter (\<lambda>g. \<not> isDismissed p (map path (files g))) gs"

text \<open>\<open>CacheManager.save\<close>: the cache section of the persisted document is replaced by the
  entries in memory.\<close>

definition save :: "plugin \<Rightarrow> plugin" where
  "save p = p\<lparr> data := (data p)\<lparr> stored_cache := entries (cacheManager p) \<rparr> \<rparr>"

text \<open>
  What \<open>startDuplicateReview\<close> hands to the view: the visible groups and whether they
  came from the cache; nothing when the scan was cancelled; the error notice when the
  scan raised.
\<close>

datatype outcome = Shown "dgroup list" bool | Cancelled | ScanFailed error

definition startDuplicateReview ::
  "plugin \<Rightarrow> app \<Rightarrow> string \<Rightarrow> int \<Rightarrow> signal \<Rightarrow> outcome \<times> plugin" where
  "startDuplicateReview p a folder now sg =
    (let cacheKey = folder;
         cfg = plugin_settings p;
         fs = collectMarkdownFiles a folder (ignoredFolders cfg);
         (cached, cm) = get a (cacheManager p) cacheKey fs cfg;
         p = p\<lparr> cacheManager := cm \<rparr>
     in case cached of
          Some gs \<Rightarrow> (Shown (filterDismissedGroups p gs) True, p)
        | None \<Rightarrow>
           (case scanForDuplicates a folder cfg (enableContentSimilarity cfg) sg of
              Inl e \<Rightarrow> if aborted_after_scan sg then (Cancelled, p) else (ScanFailed e, p)
            | Inr gs \<Rightarrow>
               if aborted_after_scan sg then (Cancelled, p)
               else
                 (let cm = put now (cacheManager p) cacheKey fs gs cfg;
                      cm = clearDirtyPathsForFolder cm cacheKey;
                      p = save (p\<lparr> cacheManager := cm \<rparr>)
                  in (Shown (filterDismissedGroups p gs) False, p))))"

text \<open>A path of a file: not empty, and without the character NUL.\<close>

definition valid_path :: "string \<Rightarrow> bool" where
  "valid_path p = (p \<noteq> [] \<and> CHR 0x00 \<notin> set p)"

text \<open>The lookup set of dismissals agrees with the persisted list of dismissed groups.
  \<open>rebuildDismissalSet\<close> establishes this and \<open>dismissGroup\<close> keeps it.\<close>

definition dismissal_consistent :: "plugin \<Rightarrow> bool" where
  "dismissal_consistent p = (dismissedSet p = set (map dismissal_key (dismissedGroups p)))"

section \<open>Notions used to state and prove the properties of the scanner\<close>

text \<open>The score the index version computes for the current words and an earlier word set.\<close>

definition index_sim :: "string list \<Rightarrow> string list \<Rightarrow> rat" where
  "index_sim words otherWords =
    (let intersectionCount = length (filter (\<lambda>w. w \<in> set otherWords) words);
         unionSize = length words + length otherWords - intersectionCount
     in if unionSize = 0 then 0 else of_nat intersectionCount / of_nat unionSize)"

text \<open>
  The invariant of the comparing loop before file \<open>i\<close> is processed: the word sets of
  all earlier files are stored, and the bucket of a word lists, in increasing order, the
  earlier files that have the word (a word of no earlier file has no bucket).
\<close>

definition words_at :: "tfile list \<Rightarrow> nat \<Rightarrow> string list" where
  "words_at fs j = wordSet (basename (fs ! j))"

definition bucket_of :: "tfile list \<Rightarrow> nat \<Rightarrow> string \<Rightarrow> nat list" where
  "bucket_of fs i w = filter (\<lambda>j. w \<in> set (words_at fs j)) [0..<i]"

definition index_ok :: "tfile list \<Rightarrow> nat \<Rightarrow> (string \<Rightarrow> nat list option) \<Rightarrow> bool" where
  "index_ok fs i idx =
    (\<forall>w. idx w = (if bucket_of fs i w = [] then None else Some (bucket_of fs i w)))"

definition wordSets_ok :: "tfile list \<Rightarrow> nat \<Rightarrow> (nat \<Rightarrow> string list option) \<Rightarrow> bool" where
  "wordSets_ok fs i ws = (\<forall>j < i. ws j = Some (words_at fs j))"

text \<open>What one turn of the comparing loop adds, up to the order of the candidate
  indices: the earlier files that share a word with file \<open>i\<close> and reach the threshold.\<close>

definition step_out :: "tfile list \<Rightarrow> rat \<Rightarrow> nat \<Rightarrow> candidate list" where
  "step_out fs t i =
    map (\<lambda>j. title_pair (fs ! j) (fs ! i))
      (filter (\<lambda>j. set (words_at fs j) \<inter> set (words_at fs i) \<noteq> {} \<and>
                   titleSimilarity (basename (fs ! j)) (basename (fs ! i)) \<ge> t)
              [0..<i])"

text \<open>
  The pairs of an earlier and a later element of a list, enumerated as the all-pairs
  version does (by the earlier element) and as the index version does (by the later
  element), and the candidates made from a list of pairs of files.
\<close>

fun fwd_pairs :: "'a list \<Rightarrow> ('a \<times> 'a) list" where
  "fwd_pairs [] = []"
| "fwd_pairs (x # xs) = map (Pair x) xs @ fwd_pairs xs"

definition bwd_pairs :: "'a list \<Rightarrow> ('a \<times> 'a) list" where
  "bwd_pairs xs = concat (map (\<lambda>i. map (\<lambda>j. (xs ! j, xs ! i)) [0..<i]) [0..<length xs])"

definition pair_candidates :: "rat \<Rightarrow> (tfile \<times> tfile) list \<Rightarrow> candidate list" where
  "pair_candidates t ps =
    map (\<lambda>(f, g). title_pair f g)
      (filter (\<lambda>(f, g). titleSimilarity (basename f) (basename g) \<ge> t) ps)"

text \<open>The pairs of indices \<open>j < i < n\<close>, each once.\<close>

definition index_pairs :: "nat \<Rightarrow> (nat \<times> nat) list" where
  "index_pairs n = concat (map (\<lambda>i. map (\<lambda>j. (j, i)) [0..<i]) [0..<n])"


subsection \<open>Example inputs\<close>

definition ex_fileA :: tfile where
  "ex_fileA = \<lparr> path = ''notes/A.md'', basename = ''A'', mtime = 10 \<rparr>"

definition ex_fileB :: tfile where
  "ex_fileB = \<lparr> path = ''notes/B.md'', basename = ''B'', mtime = 20 \<rparr>"

definition ex_settings :: settings where
  "ex_settings = \<lparr> titleSimilarityThreshold = 4 / 5, enableContentSimilarity = False,
                   contentSimilarityThreshold = 3 / 5, contentCharsToAnalyze = 1000,
                   ignoredFolders = [] \<rparr>"

definition ex_app :: app where
  "ex_app = \<lparr> getMarkdownFiles = [ex_fileA, ex_fileB],
              getFileByPath = [''notes/A.md'' \<mapsto> ex_fileA, ''notes/B.md'' \<mapsto> ex_fileB],
              exclusionFrontmatter = (\<lambda>_. None),
              cachedRead = (\<lambda>_. None) \<rparr>"

definition ex_group :: dgroup where
  "ex_group = \<lparr> normalizedTitle = ''a'', originalTitles = [''A'', ''B''],
                files = [ex_fileA, ex_fileB], candidates = [] \<rparr>"

definition ex_single_group :: dgroup where
  "ex_single_group = \<lparr> normalizedTitle = ''a'', originalTitles = [''A''],
                       files = [ex_fileA], candidates = [] \<rparr>"

definition ex_cm_clean :: cache_manager where
  "ex_cm_clean = \<lparr> entries = Map.empty, dirtyPaths = {} \<rparr>"

text \<open>A cache manager whose only dirty path lies in the sibling folder \<open>notes2\<close>, and
  the entry that \<open>put\<close> builds for the folder \<open>notes\<close> with the files \<open>A\<close> and \<open>B\<close>.\<close>

definition ex_cm_sibling :: cache_manager where
  "ex_cm_sibling = \<lparr> entries = Map.empty, dirtyPaths = {''notes2/x.md''} \<rparr>"

definition ex_entry :: cache_entry where
  "ex_entry = \<lparr> folderPath = ''notes'', scanTimestamp = 5, fileCount = 2, maxMtime = 20,
                groups = [], esettings = similarity_config ex_settings \<rparr>"

definition ex_cm_dirty :: cache_manager where
  "ex_cm_dirty = \<lparr> entries = Map.empty, dirtyPaths = {''notes/A.md''} \<rparr>"

definition ex_fileC :: tfile where
  "ex_fileC = \<lparr> path = ''notes/C.md'', basename = ''C'', mtime = 30 \<rparr>"

text \<open>A vault in which the content of \<open>C\<close> cannot be read.\<close>

definition ex_reader :: app where
  "ex_reader = \<lparr> getMarkdownFiles = [ex_fileA, ex_fileB, ex_fileC],
                 getFileByPath = [''notes/A.md'' \<mapsto> ex_fileA, ''notes/B.md'' \<mapsto> ex_fileB,
                                  ''notes/C.md'' \<mapsto> ex_fileC],
                 exclusionFrontmatter = (\<lambda>_. None),
                 cachedRead = [ex_fileA \<mapsto> ''alpha beta'', ex_fileB \<mapsto> ''alpha gamma''] \<rparr>"

definition ex_candidates :: "candidate list" where
  "ex_candidates = [title_pair ex_fileA ex_fileB, title_pair ex_fileA ex_fileC]"

text \<open>A vault with two notes of the same title in different folders; the first one lists
  the second one under \<open>duplicate-exclusion\<close>.\<close>

definition ex_noteA :: tfile where
  "ex_noteA = \<lparr> path = ''n/Notes.md'', basename = ''Notes'', mtime = 10 \<rparr>"

definition ex_noteB :: tfile where
  "ex_noteB = \<lparr> path = ''m/Notes.md'', basename = ''Notes'', mtime = 20 \<rparr>"

definition ex_noteC :: tfile where
  "ex_noteC = \<lparr> path = ''m/Untitled.md'', basename = ''Untitled'', mtime = 30 \<rparr>"

definition ex_vault :: app where
  "ex_vault = \<lparr> getMarkdownFiles = [ex_noteA, ex_noteB, ex_noteC],
                getFileByPath = [''n/Notes.md'' \<mapsto> ex_noteA, ''m/Notes.md'' \<mapsto> ex_noteB,
                                 ''m/Untitled.md'' \<mapsto> ex_noteC],
                exclusionFrontmatter = [ex_noteA \<mapsto> YArray [YString ''[[m/Notes]]'']],
                cachedRead = (\<lambda>_. None) \<rparr>"

text \<open>The same vault without the exclusion.\<close>

definition ex_vault_plain :: app where
  "ex_vault_plain = ex_vault\<lparr> exclusionFrontmatter := (\<lambda>_. None) \<rparr>"

text \<open>The group a scan of the plain vault finds, and a plugin state with an empty cache
  in which that group has been dismissed.\<close>

definition ex_notes_group :: dgroup where
  "ex_notes_group = \<lparr> normalizedTitle = ''notes'', originalTitles = [''Notes''],
                      files = [ex_noteA, ex_noteB],
                      candidates = [title_pair ex_noteA ex_noteB] \<rparr>"

definition ex_plugin :: plugin where
  "ex_plugin = \<lparr> plugin_settings = ex_settings,
                 cacheManager = ex_cm_clean,
                 dismissedGroups = [ [''m/Notes.md'', ''n/Notes.md''] ],
                 dismissedSet = {dismissal_key [''m/Notes.md'', ''n/Notes.md'']},
                 data = \<lparr> stored_cache = Map.empty,
                          stored_dismissed = [ [''m/Notes.md'', ''n/Notes.md''] ] \<rparr> \<rparr>"

text \<open>A plugin state with an empty cache and no dismissals.\<close>

definition ex_plugin_fresh :: plugin where
  "ex_plugin_fresh = \<lparr> plugin_settings = ex_settings,
                       cacheManager = ex_cm_clean,
                       dismissedGroups = [],
                       dismissedSet = {},
                       data = \<lparr> stored_cache = Map.empty, stored_dismissed = [] \<rparr> \<rparr>"



text \<open>A plugin state whose cache, in memory and persisted, holds an entry for the root
  scope that was written when the vault had two files; against the three files of the
  plain vault it is stale.\<close>

definition ex_stale_entry :: cache_entry where
  "ex_stale_entry = \<lparr> folderPath = ''/'', scanTimestamp = 1, fileCount = 2, maxMtime = 20,
                      groups = [serialize_group ex_notes_group],
                      esettings = similarity_config ex_settings \<rparr>"

definition ex_plugin_stale :: plugin where
  "ex_plugin_stale = \<lparr> plugin_settings = ex_settings,
                       cacheManager = \<lparr> entries = [''/'' \<mapsto> ex_stale_entry], dirtyPaths = {} \<rparr>,
                       dismissedGroups = [],
                       dismissedSet = {},
                       data = \<lparr> stored_cache = [''/'' \<mapsto> ex_stale_entry],
                                stored_dismissed = [] \<rparr> \<rparr>"

text \<open>A vault with two pairs of notes of the same title, the two groups a scan of it
  finds, the plugin state after a first review of it, and the state after the first
  group has then been dismissed.\<close>

definition ex_planA :: tfile where
  "ex_planA = \<lparr> path = ''n/Plan.md'', basename = ''Plan'', mtime = 30 \<rparr>"

definition ex_planB :: tfile where
  "ex_planB = \<lparr> path = ''m/Plan.md'', basename = ''Plan'', mtime = 40 \<rparr>"

definition ex_vault_two :: app where
  "ex_vault_two = \<lparr> getMarkdownFiles = [ex_noteA, ex_noteB, ex_planA, ex_planB],
                    getFileByPath = [''n/Notes.md'' \<mapsto> ex_noteA, ''m/Notes.md'' \<mapsto> ex_noteB,
                                     ''n/Plan.md'' \<mapsto> ex_planA, ''m/Plan.md'' \<mapsto> ex_planB],
                    exclusionFrontmatter = (\<lambda>_. None),
                    cachedRead = (\<lambda>_. None) \<rparr>"

definition ex_plan_group :: dgroup where
  "ex_plan_group = \<lparr> normalizedTitle = ''plan'', originalTitles = [''Plan''],
                     files = [ex_planA, ex_planB],
                     candidates = [title_pair ex_planA ex_planB] \<rparr>"

definition ex_reviewed :: plugin where
  "ex_reviewed = snd (startDuplicateReview ex_plugin_fresh ex_vault_two ''/'' 5 never_aborted)"

definition ex_dismissed :: plugin where
  "ex_dismissed = dismissGroup ex_reviewed [''n/Notes.md'', ''m/Notes.md'']"

section \<open>Properties of title normalisation\<close>

lemma not_upper_toLowerChar: "\<not> is_upper (toLowerChar c)"
proof -
  have m: "of_char (char_of (of_char c + (32::nat))) = (of_char c + 32) mod (256::nat)"
    by (simp add: of_char_of)
  show ?thesis
    unfolding toLowerChar_def is_upper_def less_eq_char_def
    by (auto simp: m) 
qed

lemma lower_word_facts:
  assumes "lower_word c"
  shows "toLowerChar c = c" "\<not> is_space c" "c \<noteq> CHR ''.''" "\<not> is_upper c" "is_word c"
  using assms
  unfolding lower_word_def toLowerChar_def is_word_def is_upper_def is_digit_def is_space_def
    less_eq_char_def
  by auto

lemma space_facts:
  "toLowerChar (CHR '' '') = CHR '' ''" "is_space (CHR '' '')" "\<not> is_upper (CHR '' '')"
  unfolding toLowerChar_def is_upper_def is_space_def less_eq_char_def
  by auto

declare split_ws.simps [simp del]
declare match_words.simps [simp del]

lemma strip_md_no_dot: "CHR ''.'' \<notin> set s \<Longrightarrow> strip_md s = s"
proof -
  assume a: "CHR ''.'' \<notin> set s"
  then have "CHR ''.'' \<notin> set (rev s)" by simp
  then show ?thesis
    unfolding strip_md_def
    by (auto split: list.splits)
qed

lemma strip_index_prefix_no_upper:
  assumes "\<forall>c \<in> set s. \<not> is_upper c"
  shows "strip_index_prefix s = s"
proof -
  define body where "body = (case s of c # cs \<Rightarrow> if c = CHR ''['' then cs else s | [] \<Rightarrow> s)"
  have "set body \<subseteq> set s"
    unfolding body_def by (auto split: list.splits)
  with assms have "takeWhile is_upper body = []"
    by (cases body) auto
  then show ?thesis
    unfolding strip_index_prefix_def body_def [symmetric] by (simp add: Let_def)
qed

lemma strip_decimal_prefix_no_dot:
  assumes "CHR ''.'' \<notin> set s"
  shows "strip_decimal_prefix s = s"
proof (cases "dropWhile is_digit s")
  case Nil
  show ?thesis unfolding strip_decimal_prefix_def Nil by simp
next
  case (Cons d r)
  then have "d \<in> set s"
    by (metis list.set_intros(1) set_dropWhileD)
  with assms have "d \<noteq> CHR ''.''" by auto
  with Cons show ?thesis unfolding strip_decimal_prefix_def by simp
qed

lemma toLowerCase_fixed: "\<forall>c \<in> set s. toLowerChar c = c \<Longrightarrow> toLowerCase s = s"
  unfolding toLowerCase_def by (induction s) auto

lemma split_ws_no_space: "\<forall>c \<in> set s. \<not> is_space c \<Longrightarrow> split_ws s = [s]"
proof -
  assume "\<forall>c \<in> set s. \<not> is_space c"
  then have e: "dropWhile (\<lambda>c. \<not> is_space c) s = []" by simp
  show ?thesis by (subst split_ws.simps) (simp only: e list.case)
qed

lemma split_ws_token:
  assumes "\<forall>c \<in> set p. \<not> is_space c" and "is_space d"
  shows "split_ws (p @ d # r) = p # split_ws (dropWhile is_space r)"
proof -
  have 1: "dropWhile (\<lambda>c. \<not> is_space c) (p @ d # r) = d # r"
    using assms by (simp add: dropWhile_append3)
  have 2: "takeWhile (\<lambda>c. \<not> is_space c) (p @ d # r) = p"
    using assms by (simp add: takeWhile_tail)
  show ?thesis
    by (subst split_ws.simps) (simp add: 1 2)
qed

lemma split_ws_tokens: "t \<in> set (split_ws s) \<Longrightarrow> set t \<subseteq> set s \<and> (\<forall>c \<in> set t. \<not> is_space c)"
proof (induction s arbitrary: t rule: split_ws.induct)
  case (1 s)
  show ?case
  proof (cases "dropWhile (\<lambda>c. \<not> is_space c) s")
    case Nil
    have "split_ws s = [s]" by (subst split_ws.simps) (simp only: Nil list.case)
    moreover from Nil have "\<forall>c \<in> set s. \<not> is_space c"
      by (metis dropWhile_eq_Nil_conv)
    ultimately show ?thesis using "1.prems" by auto
  next
    case (Cons r rs)
    then have e: "split_ws s = takeWhile (\<lambda>c. \<not> is_space c) s # split_ws (dropWhile is_space rs)"
      by (subst split_ws.simps) simp
    have sub: "set (dropWhile is_space rs) \<subseteq> set s"
    proof -
      have "set (dropWhile is_space rs) \<subseteq> set rs" by (auto dest: set_dropWhileD)
      also have "\<dots> \<subseteq> set (dropWhile (\<lambda>c. \<not> is_space c) s)" using Cons by auto
      also have "\<dots> \<subseteq> set s" by (auto dest: set_dropWhileD)
      finally show ?thesis .
    qed
    from "1.prems" e consider "t = takeWhile (\<lambda>c. \<not> is_space c) s" | "t \<in> set (split_ws (dropWhile is_space rs))"
      by auto
    then show ?thesis
    proof cases
      case 1
      then show ?thesis by (auto dest: set_takeWhileD)
    next
      case 2
      with "1.IH" [OF Cons 2] sub show ?thesis by auto
    qed
  qed
qed

lemma js_join_Cons: "js_join sep (p # ps) = (if ps = [] then p else p @ sep @ js_join sep ps)"
  by (cases ps) auto

lemma words_of_join:
  assumes "\<forall>t \<in> set ts. t \<noteq> [] \<and> (\<forall>c \<in> set t. \<not> is_space c)"
  shows "filter (\<lambda>w. w \<noteq> []) (split_ws (js_join '' '' ts)) = ts"
  using assms
proof (induction "'' ''" ts rule: js_join.induct)
  case 1
  then show ?case by (simp add: split_ws_no_space)
next
  case (2 p)
  then show ?case by (simp add: split_ws_no_space)
next
  case (3 p q ps)
  have sp: "is_space (CHR '' '')" by (simp add: is_space_def)
  from 3 obtain c cs where q: "q = c # cs" and c: "\<not> is_space c"
    by (cases q) auto
  have "js_join '' '' (q # ps) = c # (cs @ (if ps = [] then [] else '' '' @ js_join '' '' ps))"
    by (simp add: js_join_Cons q)
  with c have d: "dropWhile is_space (js_join '' '' (q # ps)) = js_join '' '' (q # ps)"
    by simp
  have "split_ws (js_join '' '' (p # q # ps)) = p # split_ws (js_join '' '' (q # ps))"
    using split_ws_token [of p "CHR '' ''" "js_join '' '' (q # ps)"] 3(2) sp d by simp
  with 3 show ?case by simp
qed

lemma set_js_join: "set (js_join sep ts) \<subseteq> set sep \<union> (\<Union>t \<in> set ts. set t)"
  by (induction sep ts rule: js_join.induct) auto

lemma normalizeTitle_tokens:
  "\<exists>ts. normal_tokens ts \<and> normalizeTitle s = js_join '' '' ts"
proof -
  define y where "y = filter (\<lambda>c. is_word c \<or> is_space c)
      (toLowerCase (strip_decimal_prefix (strip_index_prefix (strip_md s))))"
  define ts where "ts = filter (\<lambda>w. w \<noteq> []) (split_ws y)"
  have n: "normalizeTitle s = js_join '' '' ts"
    unfolding normalizeTitle_def ts_def y_def by (simp add: Let_def)
  have y: "\<forall>c \<in> set y. (is_word c \<or> is_space c) \<and> \<not> is_upper c"
    unfolding y_def toLowerCase_def by (auto simp: not_upper_toLowerChar)
  have "normal_tokens ts"
    unfolding normal_tokens_def
  proof (intro ballI conjI)
    fix t assume t: "t \<in> set ts"
    then show "t \<noteq> []" by (simp add: ts_def)
    from t have "t \<in> set (split_ws y)" by (simp add: ts_def)
    from split_ws_tokens [OF this] have st: "set t \<subseteq> set y" and ns: "\<forall>c \<in> set t. \<not> is_space c"
      by auto
    fix c assume "c \<in> set t"
    with st ns y show "lower_word c" unfolding lower_word_def by auto
  qed
  with n show ?thesis by blast
qed

lemma clean_char:
  assumes "c = CHR '' '' \<or> lower_word c"
  shows "toLowerChar c = c" "\<not> is_upper c" "c \<noteq> CHR ''.''" "is_word c \<or> is_space c"
  using assms lower_word_facts [of c] space_facts by auto

lemma normalizeTitle_join:
  assumes "normal_tokens ts"
  shows "normalizeTitle (js_join '' '' ts) = js_join '' '' ts"
proof -
  let ?s = "js_join '' '' ts"
  have chars: "\<forall>c \<in> set ?s. c = CHR '' '' \<or> lower_word c"
    using set_js_join [of "'' ''" ts] assms unfolding normal_tokens_def by auto
  have nodot: "CHR ''.'' \<notin> set ?s"
    using chars clean_char(3) by blast
  have noupper: "\<forall>c \<in> set ?s. \<not> is_upper c"
    using chars clean_char(2) by blast
  have fixed: "\<forall>c \<in> set ?s. toLowerChar c = c"
    using chars clean_char(1) by blast
  have keep: "\<forall>c \<in> set ?s. is_word c \<or> is_space c"
    using chars clean_char(4) by blast
  have 1: "strip_md ?s = ?s" using nodot by (rule strip_md_no_dot)
  have 2: "strip_index_prefix ?s = ?s" using noupper by (rule strip_index_prefix_no_upper)
  have 3: "strip_decimal_prefix ?s = ?s" using nodot by (rule strip_decimal_prefix_no_dot)
  have 4: "toLowerCase ?s = ?s" using fixed by (rule toLowerCase_fixed)
  have 5: "filter (\<lambda>c. is_word c \<or> is_space c) ?s = ?s" using keep by simp
  have "\<forall>t \<in> set ts. t \<noteq> [] \<and> (\<forall>c \<in> set t. \<not> is_space c)"
    using assms lower_word_facts(2) unfolding normal_tokens_def by blast
  then have 6: "filter (\<lambda>w. w \<noteq> []) (split_ws ?s) = ts"
    by (rule words_of_join)
  show ?thesis
    unfolding normalizeTitle_def Let_def 1 2 3 4 5 6 ..
qed

text \<open>
  C9. \<open>normalizeTitle\<close> is idempotent: normalising a normalized title gives it back.
\<close>

theorem normalizeTitle_idempotent: "normalizeTitle (normalizeTitle s) = normalizeTitle s"
proof -
  from normalizeTitle_tokens [of s] obtain ts
    where "normal_tokens ts" and "normalizeTitle s = js_join '' '' ts" by blast
  then show ?thesis by (simp add: normalizeTitle_join)
qed

theorem normalizeTitle_idempotent_witness:
  "normalizeTitle (normalizeTitle ''[AB12] Meeting  Notes-2.md'') = ''meeting notes2''"
proof -
  have "normalizeTitle ''[AB12] Meeting  Notes-2.md'' = ''meeting notes2''"
    by code_simp
  with normalizeTitle_idempotent [of "''[AB12] Meeting  Notes-2.md''"] show ?thesis
    by simp
qed

section \<open>Properties of content similarity\<close>

lemma js_split_not_found:
  "sep \<noteq> [] \<Longrightarrow> find_sub sep s = None \<Longrightarrow> js_split sep cur s = [rev cur @ s]"
  by (induction sep cur s rule: js_split.induct) (auto split: if_splits)

lemma js_split_found:
  "sep \<noteq> [] \<Longrightarrow> find_sub sep s = Some i \<Longrightarrow>
   js_split sep cur s = (rev cur @ take i s) # js_split sep [] (drop (i + length sep) s)"
proof (induction sep cur s arbitrary: i rule: js_split.induct)
  case (1 sep cur)
  then show ?case by simp
next
  case (2 sep cur c cs)
  show ?case
  proof (cases "prefix sep (c # cs)")
    case True
    with 2 show ?thesis by simp
  next
    case False
    with 2(4) obtain j where j: "find_sub sep cs = Some j" and i: "i = Suc j"
      by auto
    from 2(2) [OF _ 2(3) j] False 2(3) have "js_split sep (c # cur) cs
       = (rev (c # cur) @ take j cs) # js_split sep [] (drop (j + length sep) cs)"
      by simp
    with False 2(3) i show ?thesis by simp
  qed
qed

lemma js_split_nonempty: "js_split sep cur s \<noteq> []"
  by (induction sep cur s rule: js_split.induct) auto

lemma js_join_split: "js_join sep (js_split sep cur s) = rev cur @ s"
proof (induction sep cur s rule: js_split.induct)
  case (1 sep cur)
  then show ?case by simp
next
  case (2 sep cur c cs)
  show ?case
  proof (cases "sep \<noteq> [] \<and> prefix sep (c # cs)")
    case True
    then obtain r where r: "c # cs = sep @ r"
      by (auto simp: prefix_def)
    then have d: "drop (length sep) (c # cs) = r" by simp
    from True 2(1) have j: "js_join sep (js_split sep [] (drop (length sep) (c # cs))) = r"
      using d by simp
    obtain p ps where ps: "js_split sep [] (drop (length sep) (c # cs)) = p # ps"
      using js_split_nonempty by (cases "js_split sep [] (drop (length sep) (c # cs))") auto
    have "js_split sep cur (c # cs) = rev cur # p # ps"
      using True ps by (simp del: drop_Suc_Cons)
    then have "js_join sep (js_split sep cur (c # cs)) = rev cur @ sep @ js_join sep (p # ps)"
      by simp
    also have "\<dots> = rev cur @ sep @ r"
      using j ps by simp
    finally show ?thesis using r by simp
  next
    case False
    with 2(2) show ?thesis by auto
  qed
qed

lemma extractBody_after_front_matter: "extractBody content = trim (body_after_front_matter content)"
proof (cases "prefix ''---'' content")
  case False
  then show ?thesis by (simp add: extractBody_def body_after_front_matter_def)
next
  case True
  then have 0: "find_sub ''---'' content = Some 0"
    by (cases content) auto
  have p: "js_split ''---'' [] content = [] # js_split ''---'' [] (drop 3 content)"
    using js_split_found [OF _ 0, of "[]"] by (simp add: numeral_3_eq_3)
  show ?thesis
  proof (cases "find_sub ''---'' (drop 3 content)")
    case None
    then have "js_split ''---'' [] (drop 3 content) = [drop 3 content]"
      using js_split_not_found [of "''---''" "drop 3 content" "[]"] by simp
    with p True None show ?thesis
      by (simp add: extractBody_def body_after_front_matter_def)
  next
    case (Some i)
    then have q: "js_split ''---'' [] (drop 3 content)
        = take i (drop 3 content) # js_split ''---'' [] (drop (3 + i + 3) content)"
      using js_split_found [of "''---''" "drop 3 content" i "[]"]
      by (simp add: numeral_3_eq_3 add.commute)
    have l: "3 \<le> length (js_split ''---'' [] content)"
      using js_split_nonempty [of "''---''" "[]" "drop (3 + i + 3) content"]
      unfolding p q by (cases "js_split ''---'' [] (drop (3 + i + 3) content)") auto
    have "js_join ''---'' (drop 2 (js_split ''---'' [] content)) = drop (3 + i + 3) content"
      unfolding p q using js_join_split [of "''---''" "[]" "drop (3 + i + 3) content"] by simp
    with l True Some show ?thesis
      by (simp add: extractBody_def body_after_front_matter_def)
  qed
qed

lemma match_words_nonempty: "filter (\<lambda>w. w \<noteq> []) (match_words s) = match_words s"
proof (induction s rule: match_words.induct)
  case (1 s)
  show ?case
  proof (cases "dropWhile (\<lambda>c. \<not> is_word c) s")
    case Nil
    show ?thesis by (subst (1 2) match_words.simps) (simp only: Nil list.case filter.simps)
  next
    case (Cons r rs)
    then have "is_word r"
      using hd_dropWhile [of "\<lambda>c. \<not> is_word c" s] by auto
    then have ne: "takeWhile is_word (r # rs) \<noteq> []" by simp
    have e: "match_words s = takeWhile is_word (r # rs) # match_words (dropWhile is_word (r # rs))"
      by (subst match_words.simps) (simp only: Cons list.case)
    from "1.IH" [OF Cons] ne show ?thesis
      unfolding e by simp
  qed
qed

text \<open>
  C8 (as amended). The body that \<open>contentSimilarity\<close> compares is the white-space
  trimmed text after the second occurrence of three hyphens, when the content starts
  with three hyphens and they occur a second time; otherwise it is the white-space
  trimmed content. The body is cut to \<open>maxChars\<close> characters after this stripping and
  trimming, and the similarity is the Jaccard similarity of the lower-cased words of the
  two cut bodies.
\<close>

theorem contentSimilarity_body:
  "extractBody content = trim (body_after_front_matter content) \<and>
   contentSimilarity content1 content2 maxChars =
     jaccard
       (new_Set (match_words (toLowerCase (take (nat maxChars) (trim (body_after_front_matter content1))))))
       (new_Set (match_words (toLowerCase (take (nat maxChars) (trim (body_after_front_matter content2))))))"
  unfolding contentSimilarity_def Let_def match_words_nonempty extractBody_after_front_matter
  by simp

theorem contentSimilarity_body_witness:
  "extractBody (''---'' @ [CHR 0x0A] @ ''t: 1'' @ [CHR 0x0A] @ ''---'' @ [CHR 0x0A] @ ''Body text '')
     = ''Body text''"
proof -
  have "trim (body_after_front_matter
          (''---'' @ [CHR 0x0A] @ ''t: 1'' @ [CHR 0x0A] @ ''---'' @ [CHR 0x0A] @ ''Body text ''))
        = ''Body text''"
    by code_simp
  with contentSimilarity_body
         [of "''---'' @ [CHR 0x0A] @ ''t: 1'' @ [CHR 0x0A] @ ''---'' @ [CHR 0x0A] @ ''Body text ''"]
  show ?thesis by simp
qed

text \<open>
  The claim as the specification words it fails. The content \<open>"  ab"\<close> does not begin
  with a delimiter, yet its body is not the whole content: it is trimmed first, so that
  cutting to two characters keeps the word \<open>ab\<close> and the similarity with \<open>"ab"\<close> is 1,
  where the whole content cut to two characters has no word and would give 0. And the
  content \<open>"---a---b"\<close> has no line of three hyphens, yet its body is \<open>"b"\<close>.
\<close>

theorem contentSimilarity_body_counterexample:
  "\<not> prefix ''---'' ''  ab'' \<and>
   extractBody ''  ab'' \<noteq> ''  ab'' \<and>
   contentSimilarity ''  ab'' ''ab'' 2 = 1 \<and>
   jaccard (new_Set (match_words (toLowerCase (take 2 ''  ab''))))
           (new_Set (match_words (toLowerCase (take 2 ''ab'')))) = 0 \<and>
   extractBody ''---a---b'' = ''b''"
  by code_simp

section \<open>Properties of the cache manager\<close>

lemma computeMaxMtime_foldl:
  "foldl (\<lambda>m f. if mtime f > m then mtime f else m) b fs = Max (insert b (mtime ` set fs))"
proof (induction fs arbitrary: b)
  case Nil
  then show ?case by simp
next
  case (Cons f fs)
  have "Max (insert (if b < mtime f then mtime f else b) (mtime ` set fs))
        = Max (insert b (insert (mtime f) (mtime ` set fs)))"
  proof (cases "mtime ` set fs = {}")
    case True
    then show ?thesis by (simp add: max_def)
  next
    case False
    then show ?thesis by (simp add: max_def)
  qed
  with Cons show ?case by simp
qed

lemma computeMaxMtime_Max: "computeMaxMtime fs = Max (insert 0 (mtime ` set fs))"
  unfolding computeMaxMtime_def by (rule computeMaxMtime_foldl)

lemma isValid_iff:
  "isValid cm e cur cfg \<longleftrightarrow>
     \<not> (\<exists>d \<in> dirtyPaths cm. in_scope (folderPath e) d) \<and>
     length cur = fileCount e \<and>
     computeMaxMtime cur = maxMtime e \<and>
     \<not> settings_differ (esettings e) cfg"
  unfolding isValid_def in_scope_def settings_differ_def by auto

lemma isValid_put:
  "isValid cm' (the (entries (put now cm fp fs gs cfg) fp)) fs cfg' \<longleftrightarrow>
     \<not> (\<exists>d \<in> dirtyPaths cm'. in_scope fp d) \<and> \<not> settings_differ (similarity_config cfg) cfg'"
  unfolding isValid_iff by (simp add: put_def similarity_config_def)

lemma get_put:
  "get a ((put now cm fp fs gs cfg)\<lparr> dirtyPaths := D \<rparr>) fp fs cfg' =
    (if (\<exists>d \<in> D. in_scope fp d) \<or> settings_differ (similarity_config cfg) cfg'
     then (None, (put now cm fp fs gs cfg)\<lparr> dirtyPaths := D, entries := (entries cm)(fp := None) \<rparr>)
     else (Some (deserialize_groups a (map serialize_group gs)), (put now cm fp fs gs cfg)\<lparr> dirtyPaths := D \<rparr>))"
proof -
  let ?cm' = "(put now cm fp fs gs cfg)\<lparr> dirtyPaths := D \<rparr>"
  have e: "entries ?cm' fp = Some (the (entries (put now cm fp fs gs cfg) fp))"
    by (simp add: put_def)
  have v: "isValid ?cm' (the (entries (put now cm fp fs gs cfg) fp)) fs cfg' \<longleftrightarrow>
     \<not> (\<exists>d \<in> D. in_scope fp d) \<and> \<not> settings_differ (similarity_config cfg) cfg'"
    using isValid_put [of ?cm' now cm fp fs gs cfg cfg'] by simp
  have g: "deserialize a (the (entries (put now cm fp fs gs cfg) fp)) = deserialize_groups a (map serialize_group gs)"
    by (simp add: deserialize_def put_def)
  have u: "?cm'\<lparr> entries := (entries ?cm')(fp := None) \<rparr> =
           (put now cm fp fs gs cfg)\<lparr> dirtyPaths := D, entries := (entries cm)(fp := None) \<rparr>"
    by (simp add: put_def)
  show ?thesis
    unfolding get_def e option.case v g u by auto
qed


lemma put_dirtyPaths: "(put now cm fp fs gs cfg)\<lparr> dirtyPaths := dirtyPaths cm \<rparr> = put now cm fp fs gs cfg"
  by (simp add: put_def)

lemma get_put_fst:
  "fst (get a (put now cm fp fs gs cfg) fp fs cfg') =
    (if (\<exists>d \<in> dirtyPaths cm. in_scope fp d) \<or> settings_differ (similarity_config cfg) cfg'
     then None else Some (deserialize_groups a (map serialize_group gs)))"
  using get_put [where a = a and now = now and cm = cm and fp = fp and fs = fs and gs = gs
                      and cfg = cfg and D = "dirtyPaths cm" and cfg' = cfg']
  by (simp add: put_dirtyPaths)

lemma resolve_paths_resolvable:
  assumes "\<forall>f \<in> set fs. \<exists>f'. getFileByPath a (path f) = Some f' \<and> path f' = path f"
  shows "map path (resolve_paths a (map path fs)) = map path fs"
  using assms unfolding resolve_paths_def
  by (induction fs) auto

lemma deserialize_serialize:
  assumes "\<forall>g \<in> set gs. 2 \<le> length (files g) \<and>
             (\<forall>f \<in> set (files g). \<exists>f'. getFileByPath a (path f) = Some f' \<and> path f' = path f)"
  shows "map (\<lambda>g. map path (files g)) (deserialize_groups a (map serialize_group gs))
           = map (\<lambda>g. map path (files g)) gs
         \<and> map normalizedTitle (deserialize_groups a (map serialize_group gs))
           = map normalizedTitle gs"
  using assms
proof (induction gs)
  case Nil
  then show ?case by simp
next
  case (Cons g gs)
  have r: "map path (resolve_paths a (map path (files g))) = map path (files g)"
    using Cons.prems by (intro resolve_paths_resolvable) simp
  then have "length (resolve_paths a (map path (files g))) = length (files g)"
    by (metis length_map)
  moreover have "2 \<le> length (files g)"
    using Cons.prems by simp
  ultimately have l: "\<not> length (resolve_paths a (map path (files g))) < 2"
    by simp
  from Cons r l show ?case
    by (simp add: serialize_group_def Let_def)
qed

text \<open>
  C2 (as amended). \<open>isValid\<close> is false exactly when a recorded dirty path lies inside
  the entry's scope (any dirty path for the root scope \<open>/\<close>; for a folder, a dirty path
  that starts with the folder path followed by \<open>/\<close>), or the number of live files
  differs from the recorded count, or the largest modification time of the live files (0
  when there is none) differs from the recorded one, or one of the four similarity
  values differs. After \<open>put\<close>, a \<open>get\<close> with the same files returns \<open>null\<close> once any of the
  four similarity settings has changed, and also once a path inside the scope has been
  added to the dirty paths.
\<close>

theorem isValid_false_iff_and_invalidation:
  "(\<not> isValid cm e cur cfg \<longleftrightarrow>
      (\<exists>d \<in> dirtyPaths cm. in_scope (folderPath e) d) \<or>
      length cur \<noteq> fileCount e \<or>
      Max (insert 0 (mtime ` set cur)) \<noteq> maxMtime e \<or>
      (titleThreshold (esettings e) \<noteq> titleSimilarityThreshold cfg \<or>
       enableContent (esettings e) \<noteq> enableContentSimilarity cfg \<or>
       contentThreshold (esettings e) \<noteq> contentSimilarityThreshold cfg \<or>
       contentChars (esettings e) \<noteq> contentCharsToAnalyze cfg))
   \<and> (titleSimilarityThreshold cfg' \<noteq> titleSimilarityThreshold cfg \<or>
       enableContentSimilarity cfg' \<noteq> enableContentSimilarity cfg \<or>
       contentSimilarityThreshold cfg' \<noteq> contentSimilarityThreshold cfg \<or>
       contentCharsToAnalyze cfg' \<noteq> contentCharsToAnalyze cfg
       \<longrightarrow> fst (get a (put now cm fp fs gs cfg) fp fs cfg') = None)
   \<and> (in_scope fp d
       \<longrightarrow> fst (get a ((put now cm fp fs gs cfg)\<lparr> dirtyPaths := insert d (dirtyPaths cm) \<rparr>) fp fs cfg)
            = None)"
proof (intro conjI impI)
  show "\<not> isValid cm e cur cfg \<longleftrightarrow>
      (\<exists>d \<in> dirtyPaths cm. in_scope (folderPath e) d) \<or>
      length cur \<noteq> fileCount e \<or>
      Max (insert 0 (mtime ` set cur)) \<noteq> maxMtime e \<or>
      (titleThreshold (esettings e) \<noteq> titleSimilarityThreshold cfg \<or>
       enableContent (esettings e) \<noteq> enableContentSimilarity cfg \<or>
       contentThreshold (esettings e) \<noteq> contentSimilarityThreshold cfg \<or>
       contentChars (esettings e) \<noteq> contentCharsToAnalyze cfg)"
    unfolding isValid_iff computeMaxMtime_Max settings_differ_def by blast
next
  assume "titleSimilarityThreshold cfg' \<noteq> titleSimilarityThreshold cfg \<or>
       enableContentSimilarity cfg' \<noteq> enableContentSimilarity cfg \<or>
       contentSimilarityThreshold cfg' \<noteq> contentSimilarityThreshold cfg \<or>
       contentCharsToAnalyze cfg' \<noteq> contentCharsToAnalyze cfg"
  then have "settings_differ (similarity_config cfg) cfg'"
    by (auto simp: settings_differ_def similarity_config_def)
  then show "fst (get a (put now cm fp fs gs cfg) fp fs cfg') = None"
    using get_put [where a = a and now = now and cm = cm and fp = fp and fs = fs and gs = gs
                      and cfg = cfg and D = "dirtyPaths cm" and cfg' = cfg']
    by (simp add: put_dirtyPaths)
next
  assume "in_scope fp d"
  then show "fst (get a ((put now cm fp fs gs cfg)\<lparr> dirtyPaths := insert d (dirtyPaths cm) \<rparr>) fp fs cfg) = None"
    using get_put [where a = a and now = now and cm = cm and fp = fp and fs = fs and gs = gs
                      and cfg = cfg and D = "insert d (dirtyPaths cm)" and cfg' = cfg]
    by auto
qed

theorem isValid_false_iff_and_invalidation_witness:
  "titleSimilarityThreshold (ex_settings\<lparr> titleSimilarityThreshold := 9 / 10 \<rparr>)
     \<noteq> titleSimilarityThreshold ex_settings
   \<and> fst (get ex_app (put 5 ex_cm_clean ''notes'' [ex_fileA, ex_fileB] [ex_group] ex_settings)
            ''notes'' [ex_fileA, ex_fileB] (ex_settings\<lparr> titleSimilarityThreshold := 9 / 10 \<rparr>)) = None
   \<and> in_scope ''notes'' ''notes/A.md''
   \<and> fst (get ex_app ((put 5 ex_cm_clean ''notes'' [ex_fileA, ex_fileB] [ex_group] ex_settings)
                        \<lparr> dirtyPaths := insert ''notes/A.md'' (dirtyPaths ex_cm_clean) \<rparr>)
            ''notes'' [ex_fileA, ex_fileB] ex_settings) = None"
proof -
  have h1: "titleSimilarityThreshold (ex_settings\<lparr> titleSimilarityThreshold := 9 / 10 \<rparr>)
     \<noteq> titleSimilarityThreshold ex_settings"
    by (simp add: ex_settings_def)
  have h2: "in_scope ''notes'' ''notes/A.md''"
    by (simp add: in_scope_def)
  show ?thesis
    using h1 h2
      isValid_false_iff_and_invalidation
        [where cfg' = "ex_settings\<lparr> titleSimilarityThreshold := 9 / 10 \<rparr>"
           and cfg = ex_settings and a = ex_app and now = 5 and cm = ex_cm_clean
           and fp = "''notes''" and fs = "[ex_fileA, ex_fileB]" and gs = "[ex_group]"
           and d = "''notes/A.md''"]
    by blast
qed

text \<open>
  The claim as the specification words it takes every dirty path that has the folder
  path as a strict prefix to lie inside the scope. The path \<open>notes2/x.md\<close> has \<open>notes\<close> as
  a strict prefix, yet it lies in a sibling folder: with this dirty path recorded, the
  entry of the folder \<open>notes\<close> is still valid, and \<open>get\<close> after \<open>put\<close> returns the groups.
\<close>

theorem isValid_false_iff_and_invalidation_counterexample:
  "strict_prefix (folderPath ex_entry) ''notes2/x.md'' \<and>
   ''notes2/x.md'' \<in> dirtyPaths ex_cm_sibling \<and>
   isValid ex_cm_sibling ex_entry [ex_fileA, ex_fileB] ex_settings \<and>
   fst (get ex_app (put 5 ex_cm_sibling ''notes'' [ex_fileA, ex_fileB] [ex_group] ex_settings)
          ''notes'' [ex_fileA, ex_fileB] ex_settings)
     = Some [ex_group]"
proof (intro conjI)
  show "strict_prefix (folderPath ex_entry) ''notes2/x.md''"
    by (simp add: ex_entry_def strict_prefix_def)
  show "''notes2/x.md'' \<in> dirtyPaths ex_cm_sibling"
    by (simp add: ex_cm_sibling_def)
  show "isValid ex_cm_sibling ex_entry [ex_fileA, ex_fileB] ex_settings"
    unfolding isValid_iff
    by (simp add: ex_cm_sibling_def ex_entry_def in_scope_def computeMaxMtime_def
          ex_fileA_def ex_fileB_def settings_differ_def similarity_config_def)
  have "\<not> settings_differ (similarity_config ex_settings) ex_settings"
    by (simp add: settings_differ_def similarity_config_def)
  then show "fst (get ex_app (put 5 ex_cm_sibling ''notes'' [ex_fileA, ex_fileB] [ex_group] ex_settings)
          ''notes'' [ex_fileA, ex_fileB] ex_settings) = Some [ex_group]"
    unfolding get_put_fst
    by (simp add: ex_cm_sibling_def in_scope_def serialize_group_def ex_group_def
          resolve_paths_def ex_app_def ex_fileA_def ex_fileB_def new_Set_def set_add_def)
qed

text \<open>
  C3 (as amended). When no recorded dirty path lies inside the scope, every group has at
  least two files and every file of a group resolves by its path to a live file of that
  path, \<open>put\<close> followed at once by \<open>get\<close> with the same files and settings returns a
  group list, and its groups have the same normalized titles and the same file paths, in
  the same order, as the groups that were stored.
\<close>

theorem put_get_round_trip:
  assumes "\<forall>d \<in> dirtyPaths cm. \<not> in_scope fp d"
    and "\<forall>g \<in> set gs. 2 \<le> length (files g) \<and>
           (\<forall>f \<in> set (files g). \<exists>f'. getFileByPath a (path f) = Some f' \<and> path f' = path f)"
  shows "\<exists>gs'. fst (get a (put now cm fp fs gs cfg) fp fs cfg) = Some gs' \<and>
           map (\<lambda>g. map path (files g)) gs' = map (\<lambda>g. map path (files g)) gs \<and>
           map normalizedTitle gs' = map normalizedTitle gs"
proof -
  have "\<not> settings_differ (similarity_config cfg) cfg"
    by (simp add: settings_differ_def similarity_config_def)
  with assms(1) have "fst (get a (put now cm fp fs gs cfg) fp fs cfg)
      = Some (deserialize_groups a (map serialize_group gs))"
    using get_put [where a = a and now = now and cm = cm and fp = fp and fs = fs and gs = gs
                      and cfg = cfg and D = "dirtyPaths cm" and cfg' = cfg]
    by (simp add: put_dirtyPaths)
  with deserialize_serialize [OF assms(2)] show ?thesis
    by simp
qed

theorem put_get_round_trip_witness:
  "dirtyPaths ex_cm_clean = {} \<and> length (files ex_group) = 2 \<and>
   getFileByPath ex_app (path ex_fileA) = Some ex_fileA \<and>
   getFileByPath ex_app (path ex_fileB) = Some ex_fileB \<and>
   (\<exists>gs'. fst (get ex_app (put 5 ex_cm_clean ''notes'' [ex_fileA, ex_fileB] [ex_group] ex_settings)
                 ''notes'' [ex_fileA, ex_fileB] ex_settings) = Some gs' \<and>
           map (\<lambda>g. map path (files g)) gs' = map (\<lambda>g. map path (files g)) [ex_group] \<and>
           map normalizedTitle gs' = map normalizedTitle [ex_group])"
proof -
  have h1: "\<forall>d \<in> dirtyPaths ex_cm_clean. \<not> in_scope ''notes'' d"
    by (simp add: ex_cm_clean_def)
  have h2: "\<forall>g \<in> set [ex_group]. 2 \<le> length (files g) \<and>
      (\<forall>f \<in> set (files g). \<exists>f'. getFileByPath ex_app (path f) = Some f' \<and> path f' = path f)"
    by (simp add: ex_group_def ex_app_def ex_fileA_def ex_fileB_def)
  have h3: "dirtyPaths ex_cm_clean = {} \<and> length (files ex_group) = 2 \<and>
    getFileByPath ex_app (path ex_fileA) = Some ex_fileA \<and>
    getFileByPath ex_app (path ex_fileB) = Some ex_fileB"
    by (simp add: ex_cm_clean_def ex_group_def ex_app_def ex_fileA_def ex_fileB_def)
  from put_get_round_trip [OF h1 h2, where now = 5 and fs = "[ex_fileA, ex_fileB]" and cfg = ex_settings] h3
  show ?thesis by blast
qed

text \<open>
  The round trip as the specification words it fails on two inputs: a dirty path inside
  the scope that was recorded before \<open>put\<close> makes \<open>get\<close> return \<open>null\<close>, and a group with a
  single file is dropped when the groups are rebuilt.
\<close>

theorem put_get_round_trip_counterexample:
  "fst (get ex_app (put 5 ex_cm_dirty ''notes'' [ex_fileA, ex_fileB] [ex_group] ex_settings)
         ''notes'' [ex_fileA, ex_fileB] ex_settings) = None
   \<and> fst (get ex_app (put 5 ex_cm_clean ''notes'' [ex_fileA, ex_fileB] [ex_single_group] ex_settings)
         ''notes'' [ex_fileA, ex_fileB] ex_settings) = Some []"
proof
  have "in_scope ''notes'' ''notes/A.md''"
    by (simp add: in_scope_def)
  then show "fst (get ex_app (put 5 ex_cm_dirty ''notes'' [ex_fileA, ex_fileB] [ex_group] ex_settings)
         ''notes'' [ex_fileA, ex_fileB] ex_settings) = None"
    unfolding get_put_fst by (simp add: ex_cm_dirty_def)
next
  have "\<not> settings_differ (similarity_config ex_settings) ex_settings"
    by (simp add: settings_differ_def similarity_config_def)
  then show "fst (get ex_app (put 5 ex_cm_clean ''notes'' [ex_fileA, ex_fileB] [ex_single_group] ex_settings)
         ''notes'' [ex_fileA, ex_fileB] ex_settings) = Some []"
    unfolding get_put_fst
    by (simp add: ex_cm_clean_def serialize_group_def ex_single_group_def
                  resolve_paths_def ex_app_def ex_fileA_def)
qed

section \<open>Properties of title comparison\<close>

declare ftd_loop.simps [simp del]

lemma set_add_props [simp]:
  "set (set_add x xs) = insert x (set xs)"
  "distinct (set_add x xs) = distinct xs"
  unfolding set_add_def by auto

lemma foldl_set_add:
  "set (foldl (\<lambda>cs j. set_add j cs) acc xs) = set acc \<union> set xs \<and>
   (distinct acc \<longrightarrow> distinct (foldl (\<lambda>cs j. set_add j cs) acc xs))"
  by (induction xs arbitrary: acc) auto

lemma new_Set_props [simp]: "set (new_Set xs) = set xs" "distinct (new_Set xs)"
  using foldl_set_add [of "[]" xs] unfolding new_Set_def by auto

lemma length_new_Set: "length (new_Set xs) = card (set xs)"
  by (metis distinct_card new_Set_props)

lemma distinct_wordSet [simp]: "distinct (wordSet b)"
  unfolding wordSet_def by simp

lemma length_filter_inter:
  assumes "distinct xs"
  shows "length (filter (\<lambda>w. w \<in> set ys) xs) = card (set xs \<inter> set ys)"
proof -
  have "distinct (filter (\<lambda>w. w \<in> set ys) xs)"
    using assms by simp
  then have "length (filter (\<lambda>w. w \<in> set ys) xs) = card (set (filter (\<lambda>w. w \<in> set ys) xs))"
    by (rule distinct_card [symmetric])
  also have "set (filter (\<lambda>w. w \<in> set ys) xs) = set xs \<inter> set ys" by auto
  finally show ?thesis .
qed

lemma index_sim_jaccard:
  assumes "distinct A" "distinct B"
  shows "index_sim B A = jaccard A B"
proof -
  have i: "length (filter (\<lambda>w. w \<in> set A) B) = card (set A \<inter> set B)"
    using length_filter_inter [OF assms(2), of A] by (simp add: Int_commute)
  have u: "card (set A \<union> set B) + card (set A \<inter> set B) = length A + length B"
    using card_Un_Int [of "set A" "set B"] assms by (simp add: distinct_card)
  then have u': "length B + length A - card (set A \<inter> set B) = card (set A \<union> set B)"
    by simp
  have j1: "length (new_Set (filter (\<lambda>x. x \<in> set B) A)) = card (set A \<inter> set B)"
    unfolding length_new_Set by (rule arg_cong [where f = card]) auto
  have j2: "length (new_Set (A @ B)) = card (set A \<union> set B)"
    unfolding length_new_Set by simp
  show ?thesis
  proof (cases "A = [] \<or> B = []")
    case True
    then show ?thesis unfolding index_sim_def jaccard_def Let_def by auto
  next
    case False
    then have "card (set A \<union> set B) \<noteq> 0" by auto
    with False show ?thesis
      unfolding index_sim_def jaccard_def Let_def i u' j1 j2 by simp
  qed
qed

lemma titleSimilarity_wordSet: "titleSimilarity a b = jaccard (wordSet a) (wordSet b)"
  unfolding titleSimilarity_def wordSet_def by (simp add: Let_def)

lemma jaccard_card:
  assumes "distinct A" "distinct B"
  shows "jaccard A B = (if A = [] \<or> B = [] then 0
                        else of_nat (card (set A \<inter> set B)) / of_nat (card (set A \<union> set B)))"
proof -
  have j1: "length (new_Set (filter (\<lambda>x. x \<in> set B) A)) = card (set A \<inter> set B)"
    unfolding length_new_Set by (rule arg_cong [where f = card]) auto
  have j2: "length (new_Set (A @ B)) = card (set A \<union> set B)"
    unfolding length_new_Set by simp
  show ?thesis unfolding jaccard_def Let_def j1 j2 by simp
qed

lemma jaccard_pos_share:
  assumes "distinct A" "distinct B" "0 < jaccard A B"
  shows "set A \<inter> set B \<noteq> {}"
proof
  assume "set A \<inter> set B = {}"
  then have "jaccard A B = 0" unfolding jaccard_card [OF assms(1,2)] by simp
  with assms(3) show False by simp
qed


lemma insert_index_apply:
  "distinct words \<Longrightarrow>
   insert_index idx words i w =
     (if w \<in> set words then Some ((case idx w of None \<Rightarrow> [] | Some b \<Rightarrow> b) @ [i]) else idx w)"
  unfolding insert_index_def
proof (induction words arbitrary: idx)
  case Nil
  then show ?case by simp
next
  case (Cons x xs)
  let ?idx' = "idx(x \<mapsto> (case idx x of None \<Rightarrow> [] | Some b \<Rightarrow> b) @ [i])"
  from Cons.prems have d: "distinct xs" and nx: "x \<notin> set xs" by auto
  show ?case
    unfolding foldl_Cons Cons.IH [OF d, of ?idx']
    using nx by auto
qed

lemma bucket_of_Suc:
  "bucket_of fs (Suc i) w = bucket_of fs i w @ (if w \<in> set (words_at fs i) then [i] else [])"
  unfolding bucket_of_def by simp

lemma index_ok_empty: "index_ok fs 0 Map.empty"
  unfolding index_ok_def bucket_of_def by simp

lemma wordSets_ok_empty: "wordSets_ok fs 0 Map.empty"
  unfolding wordSets_ok_def by simp

lemma index_ok_step:
  assumes "index_ok fs i idx"
  shows "index_ok fs (Suc i) (insert_index idx (words_at fs i) i)"
proof -
  have d: "distinct (words_at fs i)" unfolding words_at_def by simp
  show ?thesis
    unfolding index_ok_def
  proof
    fix w
    from assms have iw: "idx w = (if bucket_of fs i w = [] then None else Some (bucket_of fs i w))"
      unfolding index_ok_def by blast
    show "insert_index idx (words_at fs i) i w =
      (if bucket_of fs (Suc i) w = [] then None else Some (bucket_of fs (Suc i) w))"
      unfolding insert_index_apply [OF d] bucket_of_Suc iw by auto
  qed
qed

lemma wordSets_ok_step:
  assumes "wordSets_ok fs i ws"
  shows "wordSets_ok fs (Suc i) (ws(i \<mapsto> words_at fs i))"
  using assms unfolding wordSets_ok_def by (auto simp: less_Suc_eq)

lemma collect_candidates_foldl:
  "set (foldl (\<lambda>cands w. case idx w of None \<Rightarrow> cands
                          | Some bucket \<Rightarrow> foldl (\<lambda>cs j. set_add j cs) cands bucket) acc words)
     = set acc \<union> {j. \<exists>w \<in> set words. \<exists>b. idx w = Some b \<and> j \<in> set b} \<and>
   (distinct acc \<longrightarrow>
     distinct (foldl (\<lambda>cands w. case idx w of None \<Rightarrow> cands
                          | Some bucket \<Rightarrow> foldl (\<lambda>cs j. set_add j cs) cands bucket) acc words))"
proof (induction words arbitrary: acc)
  case Nil
  then show ?case by simp
next
  case (Cons x xs)
  show ?case
  proof (cases "idx x")
    case None
    with Cons.IH [of acc] show ?thesis by auto
  next
    case (Some b)
    with Cons.IH [of "foldl (\<lambda>cs j. set_add j cs) acc b"] foldl_set_add [of acc b]
    show ?thesis by auto
  qed
qed

lemma collect_candidates_props:
  assumes "index_ok fs i idx"
  shows "set (collect_candidates idx words) = {j. j < i \<and> set (words_at fs j) \<inter> set words \<noteq> {}}"
    and "distinct (collect_candidates idx words)"
proof -
  have b: "\<And>w b. idx w = Some b \<longleftrightarrow> (b = bucket_of fs i w \<and> b \<noteq> [])"
    using assms unfolding index_ok_def by (metis option.distinct(1) option.inject)
  have "set (collect_candidates idx words) = {j. \<exists>w \<in> set words. \<exists>b. idx w = Some b \<and> j \<in> set b}"
    using collect_candidates_foldl [of idx "[]" words] unfolding collect_candidates_def by simp
  also have "\<dots> = {j. \<exists>w \<in> set words. j \<in> set (bucket_of fs i w)}"
  proof -
    have ne: "\<And>w j. j \<in> set (bucket_of fs i w) \<Longrightarrow> bucket_of fs i w \<noteq> []" by auto
    show ?thesis unfolding b using ne by blast
  qed
  also have "\<dots> = {j. j < i \<and> set (words_at fs j) \<inter> set words \<noteq> {}}"
    unfolding bucket_of_def by auto
  finally show "set (collect_candidates idx words) = {j. j < i \<and> set (words_at fs j) \<inter> set words \<noteq> {}}" .
  show "distinct (collect_candidates idx words)"
    using collect_candidates_foldl [of idx "[]" words] unfolding collect_candidates_def by simp
qed

lemma score_candidates_eq:
  assumes "\<forall>j \<in> set js. ws j = Some (words_at fs j) \<and> j < length fs"
  shows "score_candidates fs ws file words t js dups =
    Inr (dups @ map (\<lambda>j. \<lparr> file1 = fs ! j, file2 = file,
                            cand_titleSimilarity = index_sim words (words_at fs j),
                            cand_contentSimilarity = None, likelyDuplicate = None \<rparr>)
                  (filter (\<lambda>j. index_sim words (words_at fs j) \<ge> t) js))"
  using assms
proof (induction js arbitrary: dups)
  case Nil
  then show ?case by simp
next
  case (Cons j js)
  from Cons.prems have w: "ws j = Some (words_at fs j)" and l: "j < length fs"
    and r: "\<forall>j \<in> set js. ws j = Some (words_at fs j) \<and> j < length fs" by auto
  show ?case
    using Cons.IH [OF r] w l
    by (simp add: index_sim_def Let_def)
qed


lemma title_pair_index_sim:
  "\<lparr> file1 = f, file2 = g,
     cand_titleSimilarity = index_sim (wordSet (basename g)) (wordSet (basename f)),
     cand_contentSimilarity = None, likelyDuplicate = None \<rparr> = title_pair f g"
  unfolding title_pair_def titleSimilarity_wordSet
  by (simp add: index_sim_jaccard)

lemma ftd_step_out:
  assumes "index_ok fs i idx" and "wordSets_ok fs i ws" and "i < length fs"
  shows "\<exists>out. score_candidates fs (ws(i \<mapsto> words_at fs i)) (fs ! i) (words_at fs i) t
                  (collect_candidates idx (words_at fs i)) dups = Inr (dups @ out) \<and>
               mset out = mset (step_out fs t i)"
proof -
  let ?cands = "collect_candidates idx (words_at fs i)"
  let ?share = "\<lambda>j. set (words_at fs j) \<inter> set (words_at fs i) \<noteq> {}"
  let ?ok = "\<lambda>j. titleSimilarity (basename (fs ! j)) (basename (fs ! i)) \<ge> t"
  have cs: "set ?cands = {j. j < i \<and> ?share j}" and cd: "distinct ?cands"
    using collect_candidates_props [OF assms(1)] by auto
  have pre: "\<forall>j \<in> set ?cands. (ws(i \<mapsto> words_at fs i)) j = Some (words_at fs j) \<and> j < length fs"
    using cs assms(2,3) unfolding wordSets_ok_def by auto
  have sim: "\<And>j. index_sim (words_at fs i) (words_at fs j)
                 = titleSimilarity (basename (fs ! j)) (basename (fs ! i))"
    unfolding words_at_def titleSimilarity_wordSet by (simp add: index_sim_jaccard)
  define out where "out = map (\<lambda>j. title_pair (fs ! j) (fs ! i)) (filter ?ok ?cands)"
  have "score_candidates fs (ws(i \<mapsto> words_at fs i)) (fs ! i) (words_at fs i) t ?cands dups
          = Inr (dups @ out)"
    unfolding score_candidates_eq [OF pre] out_def sim title_pair_def by simp
  moreover have "mset out = mset (step_out fs t i)"
  proof -
    have se: "set ?cands = set (filter ?share [0..<i])" using cs by auto
    have d2: "distinct (filter ?share [0..<i])" by simp
    from set_eq_iff_mset_eq_distinct [OF cd d2] se
    have "mset ?cands = mset (filter ?share [0..<i])" by blast
    then have "mset (filter ?ok ?cands) = mset (filter ?ok (filter ?share [0..<i]))"
      by (metis mset_filter)
    then have "mset out = mset (map (\<lambda>j. title_pair (fs ! j) (fs ! i)) (filter ?ok (filter ?share [0..<i])))"
      unfolding out_def by (metis mset_map)
    also have "filter ?ok (filter ?share [0..<i]) = filter (\<lambda>j. ?share j \<and> ?ok j) [0..<i]"
      by (simp add: conj_commute)
    finally show ?thesis unfolding step_out_def .
  qed
  ultimately show ?thesis by blast
qed

lemma ftd_loop_result:
  assumes "index_ok fs i idx" and "wordSets_ok fs i ws" and "i \<le> length fs"
  shows "\<exists>dups' k. ftd_loop fs t ab i idx ws dups = Inr dups' \<and>
           i \<le> k \<and> k \<le> length fs \<and> (k < length fs \<longrightarrow> ab k) \<and>
           (\<forall>j. i \<le> j \<and> j < k \<longrightarrow> \<not> ab j) \<and>
           mset dups' = mset dups + mset (concat (map (step_out fs t) [i..<k]))"
  using assms
proof (induction "length fs - i" arbitrary: i idx ws dups)
  case 0
  then have "i = length fs" by simp
  then have "ftd_loop fs t ab i idx ws dups = Inr dups"
    by (subst ftd_loop.simps) simp
  with \<open>i = length fs\<close> show ?case by (intro exI [of _ dups] exI [of _ i]) auto
next
  case (Suc n)
  then have lt: "i < length fs" by simp
  show ?case
  proof (cases "ab i")
    case True
    with lt have "ftd_loop fs t ab i idx ws dups = Inr dups"
      by (subst ftd_loop.simps) simp
    with True lt show ?thesis by (intro exI [of _ dups] exI [of _ i]) auto
  next
    case False
    from ftd_step_out [OF Suc.prems(1,2) lt, of t dups] obtain out
      where sc: "score_candidates fs (ws(i \<mapsto> words_at fs i)) (fs ! i) (words_at fs i) t
                  (collect_candidates idx (words_at fs i)) dups = Inr (dups @ out)"
        and mo: "mset out = mset (step_out fs t i)" by blast
    have step: "ftd_loop fs t ab i idx ws dups
        = ftd_loop fs t ab (Suc i) (insert_index idx (words_at fs i) i) (ws(i \<mapsto> words_at fs i)) (dups @ out)"
      using lt False sc by (subst ftd_loop.simps) (simp add: Let_def words_at_def)
    have n: "n = length fs - Suc i" using Suc.hyps(2) by simp
    from Suc.hyps(1) [OF n index_ok_step [OF Suc.prems(1)] wordSets_ok_step [OF Suc.prems(2)], of "dups @ out"] lt
    obtain dups' k where r: "ftd_loop fs t ab (Suc i) (insert_index idx (words_at fs i) i)
              (ws(i \<mapsto> words_at fs i)) (dups @ out) = Inr dups'"
      and k: "Suc i \<le> k" "k \<le> length fs" "k < length fs \<longrightarrow> ab k"
             "\<forall>j. Suc i \<le> j \<and> j < k \<longrightarrow> \<not> ab j"
      and m: "mset dups' = mset (dups @ out) + mset (concat (map (step_out fs t) [Suc i..<k]))"
      by auto
    have u: "[i..<k] = i # [Suc i..<k]" using k(1) by (simp add: upt_conv_Cons)
    have na: "\<forall>j. i \<le> j \<and> j < k \<longrightarrow> \<not> ab j"
      using k(4) False by (metis Suc_leI le_neq_implies_less)
    have "mset dups' = mset dups + mset (concat (map (step_out fs t) [i..<k]))"
      unfolding m u using mo by simp
    with r step k na show ?thesis
      by (intro exI [of _ dups'] exI [of _ k]) simp
  qed
qed


lemma findTitleDuplicates_never_aborted:
  assumes "\<forall>i < length fs. \<not> aborted_comparing sg i"
  shows "\<exists>cs. findTitleDuplicates fs t sg = Inr cs \<and>
           mset cs = mset (concat (map (step_out fs t) [0..<length fs])) \<and>
           sorted_wrt (\<lambda>x y. cand_titleSimilarity x \<ge> cand_titleSimilarity y) cs"
proof -
  from ftd_loop_result [OF index_ok_empty wordSets_ok_empty, of fs t "aborted_comparing sg" "[]"]
  obtain dups' k where r: "ftd_loop fs t (aborted_comparing sg) 0 Map.empty Map.empty [] = Inr dups'"
    and k: "k \<le> length fs" "k < length fs \<longrightarrow> aborted_comparing sg k"
    and m: "mset dups' = mset (concat (map (step_out fs t) [0..<k]))"
    by auto
  from k assms have "k = length fs" by (metis le_neq_implies_less)
  with m have m': "mset (sort_by_title dups') = mset (concat (map (step_out fs t) [0..<length fs]))"
    unfolding sort_by_title_def by simp
  have "sorted (map (\<lambda>c. - cand_titleSimilarity c) (sort_by_title dups'))"
    unfolding sort_by_title_def by (rule sorted_sort_key)
  then have s: "sorted_wrt (\<lambda>x y. cand_titleSimilarity x \<ge> cand_titleSimilarity y) (sort_by_title dups')"
    by (simp add: sorted_map)
  from r m' s show ?thesis unfolding findTitleDuplicates_def by simp
qed


lemma mset_fwd_pairs_snoc:
  "mset (fwd_pairs (xs @ [y])) = mset (fwd_pairs xs) + mset (map (\<lambda>x. (x, y)) xs)"
  by (induction xs) auto

lemma bwd_pairs_snoc: "bwd_pairs (xs @ [y]) = bwd_pairs xs @ map (\<lambda>x. (x, y)) xs"
proof -
  have 1: "map (\<lambda>i. map (\<lambda>j. ((xs @ [y]) ! j, (xs @ [y]) ! i)) [0..<i]) [0..<length xs]
         = map (\<lambda>i. map (\<lambda>j. (xs ! j, xs ! i)) [0..<i]) [0..<length xs]"
    by (auto simp: nth_append)
  have "map (\<lambda>j. ((xs @ [y]) ! j, y)) [0..<length xs] = map (\<lambda>j. (xs ! j, y)) [0..<length xs]"
    by (auto simp: nth_append)
  also have "\<dots> = map (\<lambda>x. (x, y)) (map (\<lambda>j. xs ! j) [0..<length xs])"
    by (simp add: comp_def)
  also have "\<dots> = map (\<lambda>x. (x, y)) xs"
    by (simp only: map_nth)
  finally have 2: "map (\<lambda>j. ((xs @ [y]) ! j, y)) [0..<length xs] = map (\<lambda>x. (x, y)) xs" .
  have "bwd_pairs (xs @ [y])
      = concat (map (\<lambda>i. map (\<lambda>j. ((xs @ [y]) ! j, (xs @ [y]) ! i)) [0..<i]) [0..<length xs])
        @ map (\<lambda>j. ((xs @ [y]) ! j, y)) [0..<length xs]"
    unfolding bwd_pairs_def by simp
  then show ?thesis unfolding 1 2 bwd_pairs_def .
qed

lemma mset_fwd_bwd_pairs: "mset (fwd_pairs xs) = mset (bwd_pairs xs)"
proof (induction xs rule: rev_induct)
  case Nil
  then show ?case by (simp add: bwd_pairs_def)
next
  case (snoc y xs)
  then show ?case by (simp add: mset_fwd_pairs_snoc bwd_pairs_snoc)
qed

lemma all_pairs_spec_bwd: "all_pairs_spec fs t = pair_candidates t (bwd_pairs fs)"
  unfolding all_pairs_spec_def pair_candidates_def bwd_pairs_def
  by (simp add: filter_concat map_concat filter_map comp_def)

lemma mset_pair_candidates:
  assumes "mset ps = mset qs"
  shows "mset (pair_candidates t ps) = mset (pair_candidates t qs)"
  unfolding pair_candidates_def by (simp add: assms)

lemma sort_pair: "sort [a, b] = (if a \<le> b then [a, b] else [b, a])"
  by (auto simp: sort_key_def)

lemma pairKey_cases: "pairKey a b = (if a \<le> b then a @ ''|'' @ b else b @ ''|'' @ a)"
  unfolding pairKey_def sort_pair by simp

lemma bar_split:
  assumes "CHR ''|'' \<notin> set x" "CHR ''|'' \<notin> set x'" "x @ CHR ''|'' # y = x' @ CHR ''|'' # y'"
  shows "x = x' \<and> y = y'"
proof -
  have "takeWhile (\<lambda>c. c \<noteq> CHR ''|'') (x @ CHR ''|'' # y) = x"
    using assms(1) by (auto simp: takeWhile_tail)
  moreover have "takeWhile (\<lambda>c. c \<noteq> CHR ''|'') (x' @ CHR ''|'' # y') = x'"
    using assms(2) by (auto simp: takeWhile_tail)
  ultimately have "x = x'" using assms(3) by simp
  with assms(3) show ?thesis by simp
qed

lemma pairKey_inj:
  assumes "CHR ''|'' \<notin> set a" "CHR ''|'' \<notin> set b" "CHR ''|'' \<notin> set c" "CHR ''|'' \<notin> set d"
    and "pairKey a b = pairKey c d"
  shows "(a = c \<and> b = d) \<or> (a = d \<and> b = c)"
proof -
  have k: "\<And>p q. pairKey p q = (if p \<le> q then p @ CHR ''|'' # q else q @ CHR ''|'' # p)"
    unfolding pairKey_cases by simp
  consider "a \<le> b" "c \<le> d" | "a \<le> b" "\<not> c \<le> d" | "\<not> a \<le> b" "c \<le> d" | "\<not> a \<le> b" "\<not> c \<le> d"
    by blast
  then show ?thesis
  proof cases
    case 1
    with assms(5) have "a @ CHR ''|'' # b = c @ CHR ''|'' # d" unfolding k by simp
    from bar_split [OF assms(1) assms(3) this] show ?thesis by simp
  next
    case 2
    with assms(5) have "a @ CHR ''|'' # b = d @ CHR ''|'' # c" unfolding k by simp
    from bar_split [OF assms(1) assms(4) this] show ?thesis by simp
  next
    case 3
    with assms(5) have "b @ CHR ''|'' # a = c @ CHR ''|'' # d" unfolding k by simp
    from bar_split [OF assms(2) assms(3) this] show ?thesis by simp
  next
    case 4
    with assms(5) have "b @ CHR ''|'' # a = d @ CHR ''|'' # c" unfolding k by simp
    from bar_split [OF assms(2) assms(4) this] show ?thesis by simp
  qed
qed

lemma pair_candidates_Pair:
  "pair_candidates t (map (Pair f) gs)
     = map (title_pair f) (filter (\<lambda>g. titleSimilarity (basename f) (basename g) \<ge> t) gs)"
  unfolding pair_candidates_def by (simp add: filter_map comp_def)

lemma pair_candidates_append:
  "pair_candidates t (ps @ qs) = pair_candidates t ps @ pair_candidates t qs"
  unfolding pair_candidates_def by simp

lemma distinct_map_head:
  assumes "distinct (map f (x # xs))" and "y \<in> set xs"
  shows "f y \<noteq> f x"
proof
  assume "f y = f x"
  with assms(2) have "f x \<in> f ` set xs" by (metis imageI)
  with assms(1) show False by simp
qed

lemma naive_inner_result:
  assumes "\<forall>g \<in> set rest. pairKey (path f1) (path g) \<notin> ck"
    and "distinct (map path rest)"
    and "\<forall>g \<in> set rest. path g \<noteq> path f1"
    and "CHR ''|'' \<notin> set (path f1)"
    and "\<forall>g \<in> set rest. CHR ''|'' \<notin> set (path g)"
  shows "naive_inner f1 t rest (ck, dups) =
    (ck \<union> (\<lambda>g. pairKey (path f1) (path g)) ` set rest,
     dups @ map (title_pair f1) (filter (\<lambda>g. titleSimilarity (basename f1) (basename g) \<ge> t) rest))"
  using assms
proof (induction rest arbitrary: ck dups)
  case Nil
  then show ?case by simp
next
  case (Cons g rest)
  let ?key = "pairKey (path f1) (path g)"
  from Cons.prems(1) have nk: "?key \<notin> ck" by simp
  have fresh: "\<forall>g' \<in> set rest. pairKey (path f1) (path g') \<notin> insert ?key ck"
  proof
    fix g' assume g': "g' \<in> set rest"
    have "pairKey (path f1) (path g') \<noteq> ?key"
    proof
      assume "pairKey (path f1) (path g') = ?key"
      from pairKey_inj [OF _ _ _ _ this] Cons.prems(4,5) g'
      have "(path f1 = path f1 \<and> path g' = path g) \<or> (path f1 = path g \<and> path g' = path f1)"
        by simp
      moreover have "path g' \<noteq> path g"
        using Cons.prems(2) g' by (rule distinct_map_head)
      ultimately show False using Cons.prems(3) by auto
    qed
    with Cons.prems(1) g' show "pairKey (path f1) (path g') \<notin> insert ?key ck" by simp
  qed
  from Cons.prems have rest: "distinct (map path rest)" "\<forall>g \<in> set rest. path g \<noteq> path f1"
    "\<forall>g \<in> set rest. CHR ''|'' \<notin> set (path g)" by auto
  show ?case
    using nk Cons.IH [OF fresh rest(1,2) Cons.prems(4) rest(3)]
    by (auto simp: Let_def title_pair_def)
qed

lemma naive_outer_result:
  assumes "distinct (map path fs)"
    and "\<forall>f \<in> set fs. CHR ''|'' \<notin> set (path f)"
    and "\<forall>f \<in> set fs. \<forall>g \<in> set fs. path f \<noteq> path g \<longrightarrow> pairKey (path f) (path g) \<notin> ck"
  shows "snd (naive_outer t fs (ck, dups)) = dups @ pair_candidates t (fwd_pairs fs)"
  using assms
proof (induction fs arbitrary: ck dups)
  case Nil
  then show ?case by (simp add: pair_candidates_def)
next
  case (Cons f1 rest)
  let ?ck' = "ck \<union> (\<lambda>g. pairKey (path f1) (path g)) ` set rest"
  let ?dups' = "dups @ map (title_pair f1) (filter (\<lambda>g. titleSimilarity (basename f1) (basename g) \<ge> t) rest)"
  from Cons.prems(1) have d: "distinct (map path rest)" by simp
  have n1: "\<forall>g \<in> set rest. path g \<noteq> path f1"
    using distinct_map_head [OF Cons.prems(1)] by blast
  from Cons.prems(2) have b1: "CHR ''|'' \<notin> set (path f1)" and br: "\<forall>g \<in> set rest. CHR ''|'' \<notin> set (path g)"
    by auto
  have f0: "\<forall>g \<in> set rest. pairKey (path f1) (path g) \<notin> ck"
    using Cons.prems(3) n1 by (metis list.set_intros(1) list.set_intros(2))
  have inner: "naive_inner f1 t rest (ck, dups) = (?ck', ?dups')"
    by (rule naive_inner_result [OF f0 d n1 b1 br])
  have fresh: "\<forall>f \<in> set rest. \<forall>g \<in> set rest. path f \<noteq> path g \<longrightarrow> pairKey (path f) (path g) \<notin> ?ck'"
  proof (intro ballI impI)
    fix f g assume f: "f \<in> set rest" and g: "g \<in> set rest" and ne: "path f \<noteq> path g"
    from Cons.prems(3) f g ne have 1: "pairKey (path f) (path g) \<notin> ck" by simp
    have 2: "pairKey (path f) (path g) \<notin> (\<lambda>g. pairKey (path f1) (path g)) ` set rest"
    proof
      assume "pairKey (path f) (path g) \<in> (\<lambda>g. pairKey (path f1) (path g)) ` set rest"
      then obtain h where h: "h \<in> set rest" and e: "pairKey (path f) (path g) = pairKey (path f1) (path h)"
        by auto
      from pairKey_inj [OF _ _ _ _ e] br b1 f g h
      have "(path f = path f1 \<and> path g = path h) \<or> (path f = path h \<and> path g = path f1)" by simp
      with n1 f g show False by auto
    qed
    from 1 2 show "pairKey (path f) (path g) \<notin> ?ck'" by simp
  qed
  have "snd (naive_outer t (f1 # rest) (ck, dups)) = snd (naive_outer t rest (?ck', ?dups'))"
    by (simp add: inner)
  also have "\<dots> = ?dups' @ pair_candidates t (fwd_pairs rest)"
    by (rule Cons.IH [OF d br fresh])
  also have "\<dots> = dups @ pair_candidates t (fwd_pairs (f1 # rest))"
    by (simp add: pair_candidates_append pair_candidates_Pair)
  finally show ?case .
qed

lemma step_out_pos:
  assumes "0 < t"
  shows "step_out fs t i =
    map (\<lambda>j. title_pair (fs ! j) (fs ! i))
      (filter (\<lambda>j. titleSimilarity (basename (fs ! j)) (basename (fs ! i)) \<ge> t) [0..<i])"
proof -
  have "\<And>j. titleSimilarity (basename (fs ! j)) (basename (fs ! i)) \<ge> t \<Longrightarrow>
           set (words_at fs j) \<inter> set (words_at fs i) \<noteq> {}"
  proof -
    fix j assume "titleSimilarity (basename (fs ! j)) (basename (fs ! i)) \<ge> t"
    with assms have "0 < jaccard (words_at fs j) (words_at fs i)"
      unfolding titleSimilarity_wordSet words_at_def by simp
    then show "set (words_at fs j) \<inter> set (words_at fs i) \<noteq> {}"
      by (intro jaccard_pos_share) (simp_all add: words_at_def)
  qed
  then have "filter (\<lambda>j. set (words_at fs j) \<inter> set (words_at fs i) \<noteq> {} \<and>
                   titleSimilarity (basename (fs ! j)) (basename (fs ! i)) \<ge> t) [0..<i]
        = filter (\<lambda>j. titleSimilarity (basename (fs ! j)) (basename (fs ! i)) \<ge> t) [0..<i]"
    by (intro filter_cong) auto
  then show ?thesis unfolding step_out_def by simp
qed

lemma all_pairs_spec_step_out:
  assumes "0 < t"
  shows "concat (map (step_out fs t) [0..<length fs]) = all_pairs_spec fs t"
proof -
  have "step_out fs t = (\<lambda>i. map (\<lambda>j. title_pair (fs ! j) (fs ! i))
      (filter (\<lambda>j. titleSimilarity (basename (fs ! j)) (basename (fs ! i)) \<ge> t) [0..<i]))"
    by (rule ext) (rule step_out_pos [OF assms])
  then show ?thesis unfolding all_pairs_spec_def by simp
qed


lemma index_pairs_Suc: "index_pairs (Suc n) = index_pairs n @ map (\<lambda>j. (j, n)) [0..<n]"
  unfolding index_pairs_def by simp

lemma set_index_pairs: "set (index_pairs n) = {(j, i). j < i \<and> i < n}"
proof (induction n)
  case 0
  then show ?case by (simp add: index_pairs_def)
next
  case (Suc n)
  show ?case unfolding index_pairs_Suc using Suc by (auto simp: less_Suc_eq)
qed

lemma distinct_index_pairs: "distinct (index_pairs n)"
proof (induction n)
  case 0
  then show ?case by (simp add: index_pairs_def)
next
  case (Suc n)
  have "distinct (map (\<lambda>j. (j, n)) [0..<n])"
    by (simp add: distinct_map inj_on_def)
  moreover have "set (index_pairs n) \<inter> set (map (\<lambda>j. (j, n)) [0..<n]) = {}"
    unfolding set_index_pairs by auto
  ultimately show ?case unfolding index_pairs_Suc using Suc by simp
qed

lemma all_pairs_spec_index_pairs:
  "all_pairs_spec fs t =
     map (\<lambda>p. title_pair (fs ! fst p) (fs ! snd p))
       (filter (\<lambda>p. titleSimilarity (basename (fs ! fst p)) (basename (fs ! snd p)) \<ge> t)
          (index_pairs (length fs)))"
  unfolding all_pairs_spec_def index_pairs_def
  by (simp add: filter_concat map_concat filter_map comp_def)

lemma mset_naive:
  assumes "distinct (map path fs)" and "\<forall>f \<in> set fs. CHR ''|'' \<notin> set (path f)"
  shows "mset (findTitleDuplicates_naive fs t) = mset (all_pairs_spec fs t)"
proof -
  have "snd (naive_outer t fs ({}, [])) = pair_candidates t (fwd_pairs fs)"
    using naive_outer_result [OF assms, of "{}" t "[]"] by simp
  then have "mset (findTitleDuplicates_naive fs t) = mset (pair_candidates t (fwd_pairs fs))"
    unfolding findTitleDuplicates_naive_def sort_by_title_def by simp
  also have "\<dots> = mset (pair_candidates t (bwd_pairs fs))"
    by (rule mset_pair_candidates) (rule mset_fwd_bwd_pairs)
  finally show ?thesis unfolding all_pairs_spec_bwd .
qed

lemma all_pairs_spec_similarity:
  assumes "c \<in> set (all_pairs_spec fs t)"
  shows "cand_titleSimilarity c = titleSimilarity (basename (file1 c)) (basename (file2 c)) \<and>
         cand_titleSimilarity c \<ge> t"
  using assms unfolding all_pairs_spec_index_pairs by (auto simp: title_pair_def)

lemma titleSimilarity_card:
  "titleSimilarity a b =
    (if wordSet a = [] \<or> wordSet b = [] then 0
     else of_nat (card (set (wordSet a) \<inter> set (wordSet b)))
          / of_nat (card (set (wordSet a) \<union> set (wordSet b))))"
  unfolding titleSimilarity_wordSet by (rule jaccard_card) simp_all

text \<open>
  C1 (as amended). For every list of files and every threshold greater than 0, when the
  scan is not cancelled, \<open>findTitleDuplicates\<close> with the inverted index returns without
  error, and what it returns is, as a multiset, what the comparison of all pairs
  returns: one candidate for every pair of indices \<open>j < i\<close> whose \<open>titleSimilarity\<close>
  reaches the threshold, with \<open>file1\<close> the earlier file and \<open>file2\<close> the later one. The
  similarity of every candidate returned is the size of the intersection of the two word
  sets divided by the size of their union. The earlier all-pairs version of the source
  returns the same multiset when the paths of the files are pairwise distinct and contain
  no \<open>|\<close>.
\<close>

theorem findTitleDuplicates_all_pairs:
  assumes "0 < t" and "\<forall>i < length fs. \<not> aborted_comparing sg i"
  shows "\<exists>cs. findTitleDuplicates fs t sg = Inr cs \<and>
           mset cs = mset (all_pairs_spec fs t) \<and>
           (\<exists>ps. distinct ps \<and> (\<forall>p \<in> set ps. fst p < snd p \<and> snd p < length fs) \<and>
                  mset cs = mset (map (\<lambda>p. title_pair (fs ! fst p) (fs ! snd p)) ps)) \<and>
           (\<forall>c \<in> set cs.
              cand_titleSimilarity c \<ge> t \<and>
              cand_titleSimilarity c =
                of_nat (card (set (wordSet (basename (file1 c))) \<inter> set (wordSet (basename (file2 c)))))
                / of_nat (card (set (wordSet (basename (file1 c))) \<union> set (wordSet (basename (file2 c)))))) \<and>
           (distinct (map path fs) \<and> (\<forall>f \<in> set fs. CHR ''|'' \<notin> set (path f)) \<longrightarrow>
              mset cs = mset (findTitleDuplicates_naive fs t))"
proof -
  from findTitleDuplicates_never_aborted [OF assms(2), of t] obtain cs
    where r: "findTitleDuplicates fs t sg = Inr cs"
      and m0: "mset cs = mset (concat (map (step_out fs t) [0..<length fs]))" by blast
  from m0 have m: "mset cs = mset (all_pairs_spec fs t)"
    unfolding all_pairs_spec_step_out [OF assms(1)] .
  let ?ps = "filter (\<lambda>p. titleSimilarity (basename (fs ! fst p)) (basename (fs ! snd p)) \<ge> t)
          (index_pairs (length fs))"
  have p: "distinct ?ps \<and> (\<forall>p \<in> set ?ps. fst p < snd p \<and> snd p < length fs) \<and>
           mset cs = mset (map (\<lambda>p. title_pair (fs ! fst p) (fs ! snd p)) ?ps)"
    using m distinct_index_pairs [of "length fs"] set_index_pairs [of "length fs"]
    unfolding all_pairs_spec_index_pairs by auto
  have s: "\<forall>c \<in> set cs.
              cand_titleSimilarity c \<ge> t \<and>
              cand_titleSimilarity c =
                of_nat (card (set (wordSet (basename (file1 c))) \<inter> set (wordSet (basename (file2 c)))))
                / of_nat (card (set (wordSet (basename (file1 c))) \<union> set (wordSet (basename (file2 c)))))"
  proof
    fix c assume "c \<in> set cs"
    with m have "c \<in> set (all_pairs_spec fs t)" by (metis mset_eq_setD)
    from all_pairs_spec_similarity [OF this]
    have e: "cand_titleSimilarity c = titleSimilarity (basename (file1 c)) (basename (file2 c))"
      and g: "cand_titleSimilarity c \<ge> t" by auto
    from g assms(1) e have "titleSimilarity (basename (file1 c)) (basename (file2 c)) \<noteq> 0" by simp
    then have "\<not> (wordSet (basename (file1 c)) = [] \<or> wordSet (basename (file2 c)) = [])"
      unfolding titleSimilarity_card by (auto split: if_splits)
    with e g show "cand_titleSimilarity c \<ge> t \<and>
              cand_titleSimilarity c =
                of_nat (card (set (wordSet (basename (file1 c))) \<inter> set (wordSet (basename (file2 c)))))
                / of_nat (card (set (wordSet (basename (file1 c))) \<union> set (wordSet (basename (file2 c)))))"
      unfolding titleSimilarity_card by simp
  qed
  have n: "distinct (map path fs) \<and> (\<forall>f \<in> set fs. CHR ''|'' \<notin> set (path f)) \<longrightarrow>
              mset cs = mset (findTitleDuplicates_naive fs t)"
    using m mset_naive by simp
  from r m p s n show ?thesis by blast
qed

theorem findTitleDuplicates_all_pairs_witness:
  "\<exists>cs. findTitleDuplicates [ex_noteA, ex_noteB, ex_noteC] (1 / 2) never_aborted = Inr cs \<and>
        mset cs = mset (all_pairs_spec [ex_noteA, ex_noteB, ex_noteC] (1 / 2)) \<and>
        mset cs = mset (findTitleDuplicates_naive [ex_noteA, ex_noteB, ex_noteC] (1 / 2))"
proof -
  have h1: "(0::rat) < 1 / 2" by simp
  have h2: "\<forall>i < length [ex_noteA, ex_noteB, ex_noteC]. \<not> aborted_comparing never_aborted i"
    by (simp add: never_aborted_def)
  have h3: "distinct (map path [ex_noteA, ex_noteB, ex_noteC]) \<and>
            (\<forall>f \<in> set [ex_noteA, ex_noteB, ex_noteC]. CHR ''|'' \<notin> set (path f))"
    by (simp add: ex_noteA_def ex_noteB_def ex_noteC_def)
  from findTitleDuplicates_all_pairs [OF h1 h2] h3 show ?thesis by blast
qed

text \<open>
  With the threshold 0 the claim fails: two files whose titles share no word have
  similarity 0, which reaches the threshold, so the comparison of all pairs returns the
  pair, and the index version, which never compares files without a common word, returns
  nothing.
\<close>

theorem findTitleDuplicates_all_pairs_counterexample:
  "findTitleDuplicates [ex_fileA, ex_fileB] 0 never_aborted = Inr [] \<and>
   all_pairs_spec [ex_fileA, ex_fileB] 0 = [title_pair ex_fileA ex_fileB] \<and>
   findTitleDuplicates_naive [ex_fileA, ex_fileB] 0 = [title_pair ex_fileA ex_fileB] \<and>
   titleSimilarity (basename ex_fileA) (basename ex_fileB) = 0"
  by code_simp


section \<open>Properties of content refinement\<close>

lemma ex_files_distinct: "ex_fileA \<noteq> ex_fileB" "ex_fileA \<noteq> ex_fileC" "ex_fileB \<noteq> ex_fileC"
  by (simp_all add: ex_fileA_def ex_fileB_def ex_fileC_def)

lemma never_aborted_simps:
  "aborted_comparing never_aborted i = False" "aborted_after_comparing never_aborted = False"
  "aborted_refining never_aborted i = False" "aborted_after_refining never_aborted = False"
  "aborted_after_scan never_aborted = False"
  by (simp_all add: never_aborted_def)

lemma refine_loop_acc: "set acc \<subseteq> set (refine_loop a thr mc ab i cs acc)"
proof (induction cs arbitrary: i acc)
  case Nil
  then show ?case by simp
next
  case (Cons item rest)
  have "set acc \<subseteq> set (acc @ [refine_one a thr mc item])" by auto
  also have "\<dots> \<subseteq> set (refine_loop a thr mc ab (Suc i) rest (acc @ [refine_one a thr mc item]))"
    by (rule Cons.IH)
  finally show ?case by simp
qed


lemma refine_loop_reached:
  "j < length cs \<Longrightarrow> \<forall>k \<le> j. \<not> ab (i + k) \<Longrightarrow>
   refine_one a thr mc (cs ! j) \<in> set (refine_loop a thr mc ab i cs acc)"
proof (induction cs arbitrary: i j acc)
  case Nil
  then show ?case by simp
next
  case (Cons item rest)
  from Cons.prems(2) have 0: "\<not> ab i" by force
  show ?case
  proof (cases j)
    case 0
    with \<open>\<not> ab i\<close> refine_loop_acc [of "acc @ [refine_one a thr mc item]" a thr mc ab "Suc i" rest]
    show ?thesis by auto
  next
    case (Suc j')
    with Cons.prems have "j' < length rest" and "\<forall>k \<le> j'. \<not> ab (Suc i + k)" by force+
    from Cons.IH [OF this] Suc \<open>\<not> ab i\<close> show ?thesis by simp
  qed
qed



text \<open>
  C7. \<open>refineWithContent\<close> returns a list and has no error result: the reads happen
  inside the \<open>try\<close> block. For every candidate that the loop reaches (no reading of the
  signal up to its turn says aborted): when the read of either file fails, the candidate
  is in the output with \<open>contentSimilarity\<close> undefined and \<open>likelyDuplicate\<close> false; when
  both reads succeed, it is in the output with \<open>contentSimilarity\<close> set to the content
  similarity of the two contents and \<open>likelyDuplicate\<close> telling whether that score
  reaches the content threshold. A failed read does not stop the loop: the statement
  holds for every index.
\<close>

theorem refineWithContent_read_failure:
  assumes "i < length cs" and "\<forall>k \<le> i. \<not> aborted_refining sg k"
  shows "(cachedRead a (file1 (cs ! i)) = None \<or> cachedRead a (file2 (cs ! i)) = None \<longrightarrow>
            (cs ! i)\<lparr> cand_contentSimilarity := None, likelyDuplicate := Some False \<rparr>
              \<in> set (refineWithContent a cs thr mc sg)) \<and>
         (\<forall>content1 content2.
            cachedRead a (file1 (cs ! i)) = Some content1 \<and>
            cachedRead a (file2 (cs ! i)) = Some content2 \<longrightarrow>
            (cs ! i)\<lparr> cand_contentSimilarity := Some (contentSimilarity content1 content2 mc),
                       likelyDuplicate := Some (contentSimilarity content1 content2 mc \<ge> thr) \<rparr>
              \<in> set (refineWithContent a cs thr mc sg))"
proof -
  have m: "refine_one a thr mc (cs ! i) \<in> set (refineWithContent a cs thr mc sg)"
    using refine_loop_reached [of i cs "aborted_refining sg" 0 a thr mc "[]"] assms
    unfolding refineWithContent_def by simp
  show ?thesis
  proof (intro conjI impI allI)
    assume "cachedRead a (file1 (cs ! i)) = None \<or> cachedRead a (file2 (cs ! i)) = None"
    then have "refine_one a thr mc (cs ! i)
        = (cs ! i)\<lparr> cand_contentSimilarity := None, likelyDuplicate := Some False \<rparr>"
      unfolding refine_one_def by (auto split: option.splits)
    with m show "(cs ! i)\<lparr> cand_contentSimilarity := None, likelyDuplicate := Some False \<rparr>
              \<in> set (refineWithContent a cs thr mc sg)" by simp
  next
    fix content1 content2
    assume "cachedRead a (file1 (cs ! i)) = Some content1 \<and>
            cachedRead a (file2 (cs ! i)) = Some content2"
    then have "refine_one a thr mc (cs ! i)
        = (cs ! i)\<lparr> cand_contentSimilarity := Some (contentSimilarity content1 content2 mc),
                       likelyDuplicate := Some (contentSimilarity content1 content2 mc \<ge> thr) \<rparr>"
      unfolding refine_one_def by (simp add: Let_def)
    with m show "(cs ! i)\<lparr> cand_contentSimilarity := Some (contentSimilarity content1 content2 mc),
                       likelyDuplicate := Some (contentSimilarity content1 content2 mc \<ge> thr) \<rparr>
              \<in> set (refineWithContent a cs thr mc sg)" by simp
  qed
qed

theorem refineWithContent_read_failure_witness:
  "(title_pair ex_fileA ex_fileC)\<lparr> cand_contentSimilarity := None, likelyDuplicate := Some False \<rparr>
     \<in> set (refineWithContent ex_reader ex_candidates (3 / 5) 1000 never_aborted) \<and>
   (title_pair ex_fileA ex_fileB)\<lparr> cand_contentSimilarity := Some (contentSimilarity ''alpha beta'' ''alpha gamma'' 1000),
        likelyDuplicate := Some (contentSimilarity ''alpha beta'' ''alpha gamma'' 1000 \<ge> 3 / 5) \<rparr>
     \<in> set (refineWithContent ex_reader ex_candidates (3 / 5) 1000 never_aborted)"
proof -
  have l0: "0 < length ex_candidates" and l1: "1 < length ex_candidates"
    by (simp_all add: ex_candidates_def)
  have n0: "\<forall>k \<le> 0. \<not> aborted_refining never_aborted k"
    and n1: "\<forall>k \<le> 1. \<not> aborted_refining never_aborted k"
    by (simp_all add: never_aborted_simps)
  have c1: "ex_candidates ! 1 = title_pair ex_fileA ex_fileC"
    and c0: "ex_candidates ! 0 = title_pair ex_fileA ex_fileB"
    by (simp_all add: ex_candidates_def)
  have r1: "cachedRead ex_reader (file2 (title_pair ex_fileA ex_fileC)) = None"
    using ex_files_distinct by (simp add: ex_reader_def title_pair_def)
  have r0: "cachedRead ex_reader (file1 (title_pair ex_fileA ex_fileB)) = Some ''alpha beta'' \<and>
            cachedRead ex_reader (file2 (title_pair ex_fileA ex_fileB)) = Some ''alpha gamma''"
    using ex_files_distinct by (simp add: ex_reader_def title_pair_def)
  from refineWithContent_read_failure [OF l1 n1, of ex_reader "3 / 5" 1000] r1
       refineWithContent_read_failure [OF l0 n0, of ex_reader "3 / 5" 1000] r0
  show ?thesis unfolding c0 c1 by blast
qed



section \<open>Properties of exclusion filtering and of the full scan\<close>






















section \<open>Properties of the orchestrator\<close>

lemma ftd_loop_aborted_at_once:
  "aborted i \<Longrightarrow> ftd_loop fs t aborted i idx ws dups = Inr dups"
  by (subst ftd_loop.simps) simp

lemma scanForDuplicates_cancelled:
  assumes "aborted_comparing sg 0" and "aborted_after_comparing sg"
  shows "scanForDuplicates a folder cfg refine sg = Inr []"
proof -
  have "findTitleDuplicates (collectMarkdownFiles a folder (ignoredFolders cfg))
          (titleSimilarityThreshold cfg) sg = Inr []"
    unfolding findTitleDuplicates_def
    using ftd_loop_aborted_at_once [of "aborted_comparing sg" 0] assms(1)
    by (simp add: sort_by_title_def)
  with assms(2) show ?thesis unfolding scanForDuplicates_def by (simp add: Let_def)
qed

lemma get_entries_le: "entries (snd (get a cm fp fs cfg)) \<subseteq>\<^sub>m entries cm"
  unfolding get_def by (auto simp: map_le_def split: option.splits)

lemma get_dirtyPaths: "dirtyPaths (snd (get a cm fp fs cfg)) = dirtyPaths cm"
  unfolding get_def by (auto split: option.splits)

lemma get_miss_entries:
  "fst (get a cm fp fs cfg) = None \<Longrightarrow> entries (snd (get a cm fp fs cfg)) = (entries cm)(fp := None)"
  unfolding get_def by (auto split: option.splits if_splits)

text \<open>
  C5 (as amended). When the signal reads aborted at the first turn of the comparing loop
  and at every later reading, \<open>scanForDuplicates\<close> returns the empty list of groups
  and raises no error. When the orchestrator finds no valid cache entry and runs such a
  scan, it shows nothing and writes nothing for that scan: no entry is put, no dirty
  path is cleared and nothing is saved, so the dirty paths and the persisted document
  are unchanged and the cache manager is as the cache lookup before the scan left it.
  The map of cache entries is therefore the map before the call without the entry of the
  scope: it is unchanged when the scope had no entry, and a stale entry of the scope has
  been deleted from memory by the lookup, while the persisted document still holds it.
\<close>

theorem cancelled_scan_writes_nothing:
  assumes "aborted_comparing sg 0" and "aborted_after_comparing sg" and "aborted_after_scan sg"
  shows "scanForDuplicates a folder cfg refine sg = Inr [] \<and>
         (fst (get a (cacheManager p) folder
                 (collectMarkdownFiles a folder (ignoredFolders (plugin_settings p)))
                 (plugin_settings p)) = None \<longrightarrow>
          fst (startDuplicateReview p a folder now sg) = Cancelled \<and>
          cacheManager (snd (startDuplicateReview p a folder now sg))
            = snd (get a (cacheManager p) folder
                     (collectMarkdownFiles a folder (ignoredFolders (plugin_settings p)))
                     (plugin_settings p)) \<and>
          entries (cacheManager (snd (startDuplicateReview p a folder now sg)))
            = (entries (cacheManager p))(folder := None) \<and>
          (entries (cacheManager p) folder = None \<longrightarrow>
             cacheManager (snd (startDuplicateReview p a folder now sg)) = cacheManager p) \<and>
          entries (cacheManager (snd (startDuplicateReview p a folder now sg)))
            \<subseteq>\<^sub>m entries (cacheManager p) \<and>
          dirtyPaths (cacheManager (snd (startDuplicateReview p a folder now sg)))
            = dirtyPaths (cacheManager p) \<and>
          data (snd (startDuplicateReview p a folder now sg)) = data p)"
proof (intro conjI impI)
  show s: "scanForDuplicates a folder cfg refine sg = Inr []"
    using assms(1,2) by (rule scanForDuplicates_cancelled)
  let ?fs = "collectMarkdownFiles a folder (ignoredFolders (plugin_settings p))"
  let ?g = "get a (cacheManager p) folder ?fs (plugin_settings p)"
  assume miss: "fst ?g = None"
  have r: "startDuplicateReview p a folder now sg = (Cancelled, p\<lparr> cacheManager := snd ?g \<rparr>)"
    unfolding startDuplicateReview_def Let_def
    using miss assms(3) scanForDuplicates_cancelled [OF assms(1,2)]
    by (simp add: case_prod_unfold)
  show "fst (startDuplicateReview p a folder now sg) = Cancelled" by (simp add: r)
  show "cacheManager (snd (startDuplicateReview p a folder now sg)) = snd ?g" by (simp add: r)
  show "entries (cacheManager (snd (startDuplicateReview p a folder now sg)))
            = (entries (cacheManager p))(folder := None)"
    using get_miss_entries [OF miss] by (simp add: r)
  show "entries (cacheManager (snd (startDuplicateReview p a folder now sg))) \<subseteq>\<^sub>m entries (cacheManager p)"
    by (simp add: r get_entries_le)
  show "dirtyPaths (cacheManager (snd (startDuplicateReview p a folder now sg))) = dirtyPaths (cacheManager p)"
    by (simp add: r get_dirtyPaths)
  show "data (snd (startDuplicateReview p a folder now sg)) = data p" by (simp add: r)
next
  let ?fs = "collectMarkdownFiles a folder (ignoredFolders (plugin_settings p))"
  let ?g = "get a (cacheManager p) folder ?fs (plugin_settings p)"
  assume miss: "fst ?g = None" and none: "entries (cacheManager p) folder = None"
  have r: "startDuplicateReview p a folder now sg = (Cancelled, p\<lparr> cacheManager := snd ?g \<rparr>)"
    unfolding startDuplicateReview_def Let_def
    using miss assms(3) scanForDuplicates_cancelled [OF assms(1,2)]
    by (simp add: case_prod_unfold)
  have "snd ?g = cacheManager p" using none unfolding get_def by simp
  then show "cacheManager (snd (startDuplicateReview p a folder now sg)) = cacheManager p"
    by (simp add: r)
qed

theorem cancelled_scan_writes_nothing_witness:
  "scanForDuplicates ex_vault_plain ''/'' ex_settings False always_aborted = Inr [] \<and>
   fst (startDuplicateReview ex_plugin ex_vault_plain ''/'' 5 always_aborted) = Cancelled \<and>
   cacheManager (snd (startDuplicateReview ex_plugin ex_vault_plain ''/'' 5 always_aborted)) = ex_cm_clean \<and>
   data (snd (startDuplicateReview ex_plugin ex_vault_plain ''/'' 5 always_aborted)) = data ex_plugin \<and>
   fst (startDuplicateReview ex_plugin_stale ex_vault_plain ''/'' 5 always_aborted) = Cancelled \<and>
   entries (cacheManager (snd (startDuplicateReview ex_plugin_stale ex_vault_plain ''/'' 5 always_aborted)))
     = Map.empty \<and>
   data (snd (startDuplicateReview ex_plugin_stale ex_vault_plain ''/'' 5 always_aborted))
     = data ex_plugin_stale"
proof -
  have h: "aborted_comparing always_aborted 0" "aborted_after_comparing always_aborted"
    "aborted_after_scan always_aborted"
    by (simp_all add: always_aborted_def)
  have g: "get ex_vault_plain (cacheManager ex_plugin) ''/''
             (collectMarkdownFiles ex_vault_plain ''/'' (ignoredFolders (plugin_settings ex_plugin)))
             (plugin_settings ex_plugin) = (None, ex_cm_clean)"
    by (simp add: get_def ex_plugin_def ex_cm_clean_def)
  have g2: "fst (get ex_vault_plain (cacheManager ex_plugin_stale) ''/''
             (collectMarkdownFiles ex_vault_plain ''/'' (ignoredFolders (plugin_settings ex_plugin_stale)))
             (plugin_settings ex_plugin_stale)) = None"
    by code_simp
  have e: "(entries (cacheManager ex_plugin_stale))(''/'' := None) = Map.empty"
    by (simp add: ex_plugin_stale_def)
  from cancelled_scan_writes_nothing [OF h, of ex_vault_plain "''/''" ex_settings False ex_plugin 5] g
  have 1: "scanForDuplicates ex_vault_plain ''/'' ex_settings False always_aborted = Inr [] \<and>
   fst (startDuplicateReview ex_plugin ex_vault_plain ''/'' 5 always_aborted) = Cancelled \<and>
   cacheManager (snd (startDuplicateReview ex_plugin ex_vault_plain ''/'' 5 always_aborted)) = ex_cm_clean \<and>
   data (snd (startDuplicateReview ex_plugin ex_vault_plain ''/'' 5 always_aborted)) = data ex_plugin"
    by simp
  from cancelled_scan_writes_nothing [OF h, of ex_vault_plain "''/''" ex_settings False ex_plugin_stale 5] g2
  have "fst (startDuplicateReview ex_plugin_stale ex_vault_plain ''/'' 5 always_aborted) = Cancelled \<and>
   entries (cacheManager (snd (startDuplicateReview ex_plugin_stale ex_vault_plain ''/'' 5 always_aborted)))
     = (entries (cacheManager ex_plugin_stale))(''/'' := None) \<and>
   data (snd (startDuplicateReview ex_plugin_stale ex_vault_plain ''/'' 5 always_aborted))
     = data ex_plugin_stale"
    by blast
  then have 2: "fst (startDuplicateReview ex_plugin_stale ex_vault_plain ''/'' 5 always_aborted) = Cancelled \<and>
   entries (cacheManager (snd (startDuplicateReview ex_plugin_stale ex_vault_plain ''/'' 5 always_aborted)))
     = Map.empty \<and>
   data (snd (startDuplicateReview ex_plugin_stale ex_vault_plain ''/'' 5 always_aborted))
     = data ex_plugin_stale"
    unfolding e .
  from 1 2 show ?thesis by simp
qed

theorem cancelled_scan_writes_nothing_counterexample:
  "aborted_comparing always_aborted 0 \<and> aborted_after_comparing always_aborted \<and>
   aborted_after_refining always_aborted \<and> aborted_after_scan always_aborted \<and>
   scanForDuplicates ex_vault_plain ''/'' (plugin_settings ex_plugin_stale)
     (enableContentSimilarity (plugin_settings ex_plugin_stale)) always_aborted = Inr [] \<and>
   fst (startDuplicateReview ex_plugin_stale ex_vault_plain ''/'' 5 always_aborted) = Cancelled \<and>
   entries (cacheManager ex_plugin_stale) ''/'' = Some ex_stale_entry \<and>
   entries (cacheManager (snd (startDuplicateReview ex_plugin_stale ex_vault_plain ''/'' 5 always_aborted))) ''/''
     = None \<and>
   entries (cacheManager (snd (startDuplicateReview ex_plugin_stale ex_vault_plain ''/'' 5 always_aborted)))
     \<noteq> entries (cacheManager ex_plugin_stale) \<and>
   stored_cache (data (snd (startDuplicateReview ex_plugin_stale ex_vault_plain ''/'' 5 always_aborted))) ''/''
     = Some ex_stale_entry"
proof -
  have a: "aborted_comparing always_aborted 0 \<and> aborted_after_comparing always_aborted \<and>
   aborted_after_refining always_aborted \<and> aborted_after_scan always_aborted"
    by (simp add: always_aborted_def)
  have s: "scanForDuplicates ex_vault_plain ''/'' (plugin_settings ex_plugin_stale)
     (enableContentSimilarity (plugin_settings ex_plugin_stale)) always_aborted = Inr []"
    by code_simp
  have r: "fst (startDuplicateReview ex_plugin_stale ex_vault_plain ''/'' 5 always_aborted) = Cancelled"
    by code_simp
  have b: "entries (cacheManager ex_plugin_stale) ''/'' = Some ex_stale_entry"
    by (simp add: ex_plugin_stale_def)
  have c: "entries (cacheManager (snd (startDuplicateReview ex_plugin_stale ex_vault_plain ''/'' 5 always_aborted))) ''/''
     = None"
    by code_simp
  have d: "stored_cache (data (snd (startDuplicateReview ex_plugin_stale ex_vault_plain ''/'' 5 always_aborted))) ''/''
     = Some ex_stale_entry"
    by code_simp
  from b c have n: "entries (cacheManager (snd (startDuplicateReview ex_plugin_stale ex_vault_plain ''/'' 5 always_aborted)))
     \<noteq> entries (cacheManager ex_plugin_stale)" by (metis option.distinct(1))
  from a s r b c d n show ?thesis by simp
qed

lemma takeWhile_js_join_nul:
  assumes "CHR 0x00 \<notin> set p"
  shows "takeWhile (\<lambda>c. c \<noteq> CHR 0x00) (js_join [CHR 0x00] (p # ps)) = p"
proof (cases ps)
  case Nil
  with assms show ?thesis by (auto simp: takeWhile_eq_all_conv)
next
  case (Cons q qs)
  with assms show ?thesis by (auto simp: takeWhile_tail)
qed

lemma js_join_nul_inj:
  assumes "\<forall>p \<in> set xs. valid_path p" and "\<forall>p \<in> set ys. valid_path p"
    and "js_join [CHR 0x00] xs = js_join [CHR 0x00] ys"
  shows "xs = ys"
  using assms
proof (induction xs arbitrary: ys)
  case Nil
  show ?case
  proof (cases ys)
    case Nil
    then show ?thesis by simp
  next
    case (Cons q qs)
    with Nil.prems(2) have "q \<noteq> []" by (simp add: valid_path_def)
    then have "js_join [CHR 0x00] (q # qs) \<noteq> []" by (simp add: js_join_Cons)
    with Nil.prems(3) Cons show ?thesis by simp
  qed
next
  case (Cons p ps)
  from Cons.prems(1) have vp: "p \<noteq> []" "CHR 0x00 \<notin> set p" by (simp_all add: valid_path_def)
  show ?case
  proof (cases ys)
    case Nil
    from vp have "js_join [CHR 0x00] (p # ps) \<noteq> []" by (simp add: js_join_Cons)
    with Cons.prems(3) Nil show ?thesis by simp
  next
    case ys: (Cons q qs)
    from Cons.prems(2) ys have vq: "q \<noteq> []" "CHR 0x00 \<notin> set q" by (simp_all add: valid_path_def)
    have "takeWhile (\<lambda>c. c \<noteq> CHR 0x00) (js_join [CHR 0x00] (p # ps))
        = takeWhile (\<lambda>c. c \<noteq> CHR 0x00) (js_join [CHR 0x00] (q # qs))"
      using Cons.prems(3) ys by simp
    then have pq: "p = q"
      unfolding takeWhile_js_join_nul [OF vp(2)] takeWhile_js_join_nul [OF vq(2)] .
    have rest: "(if ps = [] then [] else CHR 0x00 # js_join [CHR 0x00] ps)
              = (if qs = [] then [] else CHR 0x00 # js_join [CHR 0x00] qs)"
      using Cons.prems(3) ys pq by (simp add: js_join_Cons split: if_splits)
    have "ps = qs"
    proof (cases "ps = []")
      case True
      with rest show ?thesis by (auto split: if_splits)
    next
      case False
      with rest have "qs \<noteq> []" and j: "js_join [CHR 0x00] ps = js_join [CHR 0x00] qs"
        by (auto split: if_splits)
      from Cons.IH [OF _ _ j] Cons.prems(1,2) ys show ?thesis by simp
    qed
    with pq ys show ?thesis by simp
  qed
qed

lemma dismissal_key_eq_iff:
  assumes "\<forall>p \<in> set xs. valid_path p" and "\<forall>p \<in> set ys. valid_path p"
  shows "dismissal_key xs = dismissal_key ys \<longleftrightarrow> sort xs = sort ys"
proof
  assume "dismissal_key xs = dismissal_key ys"
  then have "js_join [CHR 0x00] (sort xs) = js_join [CHR 0x00] (sort ys)"
    unfolding dismissal_key_def .
  moreover have "\<forall>p \<in> set (sort xs). valid_path p" "\<forall>p \<in> set (sort ys). valid_path p"
    using assms by simp_all
  ultimately show "sort xs = sort ys" by (intro js_join_nul_inj)
next
  assume "sort xs = sort ys"
  then show "dismissal_key xs = dismissal_key ys" unfolding dismissal_key_def by simp
qed


lemma dismissal_consistent_rebuild: "dismissal_consistent (rebuildDismissalSet p)"
  unfolding dismissal_consistent_def rebuildDismissalSet_def by simp

lemma dismissal_consistent_dismissGroup:
  assumes "dismissal_consistent p"
  shows "dismissal_consistent (dismissGroup p paths)"
proof -
  have "js_join [CHR 0x00] (sort paths) = dismissal_key (sort paths)"
    unfolding dismissal_key_def by (simp add: sorted_sort_id)
  with assms show ?thesis
    unfolding dismissal_consistent_def dismissGroup_def by (simp add: Let_def)
qed

lemma isDismissed_iff:
  assumes "dismissal_consistent p"
    and "\<forall>d \<in> set (dismissedGroups p). \<forall>q \<in> set d. valid_path q"
    and "\<forall>q \<in> set paths. valid_path q"
  shows "isDismissed p paths \<longleftrightarrow> (\<exists>d \<in> set (dismissedGroups p). sort d = sort paths)"
proof -
  have "isDismissed p paths \<longleftrightarrow> (\<exists>d \<in> set (dismissedGroups p). dismissal_key paths = dismissal_key d)"
    using assms(1) unfolding isDismissed_def dismissal_consistent_def by auto
  also have "\<dots> \<longleftrightarrow> (\<exists>d \<in> set (dismissedGroups p). sort d = sort paths)"
    using dismissal_key_eq_iff [OF assms(3)] assms(2) by (metis (no_types, lifting))
  finally show ?thesis .
qed

lemma filterDismissedGroups_eq:
  assumes "dismissedSet p' = dismissedSet p"
    and "dismissal_consistent p"
    and "\<forall>d \<in> set (dismissedGroups p). \<forall>q \<in> set d. valid_path q"
    and "\<forall>g \<in> set gs. \<forall>f \<in> set (files g). valid_path (path f)"
  shows "filterDismissedGroups p' gs =
           filter (\<lambda>g. \<not> (\<exists>d \<in> set (dismissedGroups p). sort d = sort (map path (files g)))) gs"
proof -
  have "\<And>g. g \<in> set gs \<Longrightarrow>
          isDismissed p' (map path (files g)) \<longleftrightarrow>
          (\<exists>d \<in> set (dismissedGroups p). sort d = sort (map path (files g)))"
  proof -
    fix g assume "g \<in> set gs"
    with assms(4) have v: "\<forall>q \<in> set (map path (files g)). valid_path q" by auto
    have "isDismissed p' (map path (files g)) = isDismissed p (map path (files g))"
      unfolding isDismissed_def assms(1) ..
    with isDismissed_iff [OF assms(2,3) v]
    show "isDismissed p' (map path (files g)) \<longleftrightarrow>
          (\<exists>d \<in> set (dismissedGroups p). sort d = sort (map path (files g)))" by simp
  qed
  then show ?thesis unfolding filterDismissedGroups_def by (intro filter_cong) auto
qed

lemma startDuplicateReview_scanned:
  assumes "fst (get a (cacheManager p) folder
                 (collectMarkdownFiles a folder (ignoredFolders (plugin_settings p)))
                 (plugin_settings p)) = None"
    and "scanForDuplicates a folder (plugin_settings p) (enableContentSimilarity (plugin_settings p)) sg
           = Inr gs"
    and "\<not> aborted_after_scan sg"
  shows "startDuplicateReview p a folder now sg =
    (let fs = collectMarkdownFiles a folder (ignoredFolders (plugin_settings p));
         cm = snd (get a (cacheManager p) folder fs (plugin_settings p));
         p' = save (p\<lparr> cacheManager :=
                 clearDirtyPathsForFolder (put now cm folder fs gs (plugin_settings p)) folder \<rparr>)
     in (Shown (filterDismissedGroups p' gs) False, p'))"
  unfolding startDuplicateReview_def Let_def
  using assms by (simp add: case_prod_unfold)

lemma startDuplicateReview_dismissals:
  "dismissedSet (snd (startDuplicateReview p a folder now sg)) = dismissedSet p \<and>
   dismissedGroups (snd (startDuplicateReview p a folder now sg)) = dismissedGroups p"
  unfolding startDuplicateReview_def Let_def save_def
  by (simp add: case_prod_unfold split: option.splits sum.splits)

lemma dismissal_consistent_startDuplicateReview:
  "dismissal_consistent p \<Longrightarrow> dismissal_consistent (snd (startDuplicateReview p a folder now sg))"
  unfolding dismissal_consistent_def by (simp add: startDuplicateReview_dismissals)

lemma clearDirtyPathsForFolder_in_scope:
  "clearDirtyPathsForFolder cm fp = cm\<lparr> dirtyPaths := {d \<in> dirtyPaths cm. \<not> in_scope fp d} \<rparr>"
  unfolding clearDirtyPathsForFolder_def in_scope_def by auto

lemma put_stored_groups:
  "\<exists>en. entries (put now cm fp fs gs cfg) fp = Some en \<and>
        map s_normalizedTitle (groups en) = map normalizedTitle gs \<and>
        map s_originalTitles (groups en) = map originalTitles gs \<and>
        map filePaths (groups en) = map (\<lambda>g. map path (files g)) gs \<and>
        deserialize a en = deserialize_groups a (map serialize_group gs)"
  by (simp add: put_def serialize_group_def comp_def deserialize_def)

lemma isDismissed_dismissGroup:
  assumes "sort paths' = sort paths"
  shows "isDismissed (dismissGroup p paths) paths'"
  unfolding isDismissed_def dismissGroup_def dismissal_key_def Let_def using assms by simp

lemma resolve_paths_from_vault:
  "f \<in> set (resolve_paths a ps) \<Longrightarrow> \<exists>q. getFileByPath a q = Some f"
  unfolding resolve_paths_def by (auto split: option.splits)

lemma deserialize_groups_files:
  "g \<in> set (deserialize_groups a sgs) \<Longrightarrow> \<exists>ps. files g = resolve_paths a ps"
  by (induction sgs) (auto simp: Let_def split: if_splits)

text \<open>
  C6. Dismissal filters what is shown and never what is cached. When the orchestrator
  finds no valid cache entry and the scan completes with the groups \<open>gs\<close>, the groups
  handed to the view are those of \<open>gs\<close> without exactly the groups whose sorted list of
  file paths equals the sorted list of some stored dismissed group, and the cache entry
  of the scope, in memory and in the persisted document, lists every group of \<open>gs\<close>,
  dismissed or not, in order, with its normalized title, its original titles and the
  paths of its files. When a group with the paths \<open>paths\<close> is dismissed afterwards, the
  cache in memory and the persisted cache entries stay as they are, and a further review
  of the same scope on the same vault is served from that entry: it changes nothing, and
  the groups it hands to the view are the groups rebuilt from the entry without the
  dismissed ones, so none of them has the file paths \<open>paths\<close>, while the entry still
  lists every group of \<open>gs\<close>; when every group of \<open>gs\<close> has two files or more and all
  of them are still found in the vault under their paths, the path lists of the groups
  shown are those of \<open>gs\<close> without exactly the dismissed ones. (The statements with
  "exactly" are for file paths, which are not empty and hold no NUL, and for a lookup set
  of dismissals that agrees with the stored list, as it does after loading and after
  every dismissal.)
\<close>

theorem dismissal_filters_view_not_cache:
  assumes "fst (get a (cacheManager p) folder
                 (collectMarkdownFiles a folder (ignoredFolders (plugin_settings p)))
                 (plugin_settings p)) = None"
    and "scanForDuplicates a folder (plugin_settings p) (enableContentSimilarity (plugin_settings p)) sg
           = Inr gs"
    and "\<not> aborted_after_scan sg"
    and "p1 = snd (startDuplicateReview p a folder now sg)"
    and "p2 = dismissGroup p1 paths"
  shows "(dismissal_consistent p \<and>
          (\<forall>d \<in> set (dismissedGroups p). \<forall>q \<in> set d. valid_path q) \<and>
          (\<forall>g \<in> set gs. \<forall>f \<in> set (files g). valid_path (path f)) \<longrightarrow>
          fst (startDuplicateReview p a folder now sg) =
            Shown (filter (\<lambda>g. \<not> (\<exists>d \<in> set (dismissedGroups p). sort d = sort (map path (files g)))) gs)
                  False) \<and>
         (\<exists>e. entries (cacheManager p1) folder = Some e \<and>
               stored_cache (data p1) folder = Some e \<and>
               map s_normalizedTitle (groups e) = map normalizedTitle gs \<and>
               map s_originalTitles (groups e) = map originalTitles gs \<and>
               map filePaths (groups e) = map (\<lambda>g. map path (files g)) gs \<and>
               cacheManager p2 = cacheManager p1 \<and>
               stored_cache (data p2) = stored_cache (data p1) \<and>
               (\<exists>visible. startDuplicateReview p2 a folder now' sg' = (Shown visible True, p2) \<and>
                  visible = filter (\<lambda>g. \<not> isDismissed p2 (map path (files g))) (deserialize a e) \<and>
                  (\<forall>g \<in> set visible. sort (map path (files g)) \<noteq> sort paths) \<and>
                  (dismissal_consistent p \<and>
                   (\<forall>d \<in> set (dismissedGroups p). \<forall>q \<in> set d. valid_path q) \<and>
                   (\<forall>q \<in> set paths. valid_path q) \<and>
                   (\<forall>q f. getFileByPath a q = Some f \<longrightarrow> valid_path (path f)) \<longrightarrow>
                   visible = filter (\<lambda>g. \<not> (\<exists>d \<in> set (dismissedGroups p @ [sort paths]).
                                               sort d = sort (map path (files g))))
                               (deserialize a e)) \<and>
                  (dismissal_consistent p \<and>
                   (\<forall>d \<in> set (dismissedGroups p). \<forall>q \<in> set d. valid_path q) \<and>
                   (\<forall>q \<in> set paths. valid_path q) \<and>
                   (\<forall>q f. getFileByPath a q = Some f \<longrightarrow> valid_path (path f)) \<and>
                   (\<forall>g \<in> set gs. 2 \<le> length (files g) \<and>
                      (\<forall>f \<in> set (files g). \<exists>f'. getFileByPath a (path f) = Some f' \<and> path f' = path f)) \<longrightarrow>
                   map (\<lambda>g. map path (files g)) visible =
                     filter (\<lambda>ps. \<not> (\<exists>d \<in> set (dismissedGroups p @ [sort paths]). sort d = sort ps))
                       (map (\<lambda>g. map path (files g)) gs))))"
proof -
  let ?cfg = "plugin_settings p"
  let ?fs = "collectMarkdownFiles a folder (ignoredFolders ?cfg)"
  let ?cm = "snd (get a (cacheManager p) folder ?fs ?cfg)"
  let ?put = "put now ?cm folder ?fs gs ?cfg"
  let ?cm' = "clearDirtyPathsForFolder ?put folder"
  let ?p' = "save (p\<lparr> cacheManager := ?cm' \<rparr>)"
  have r: "startDuplicateReview p a folder now sg = (Shown (filterDismissedGroups ?p' gs) False, ?p')"
    using startDuplicateReview_scanned [OF assms(1,2,3), of now] by (simp add: Let_def)
  have p1: "p1 = ?p'" unfolding assms(4) r by simp
  have 1: "dismissal_consistent p \<and>
          (\<forall>d \<in> set (dismissedGroups p). \<forall>q \<in> set d. valid_path q) \<and>
          (\<forall>g \<in> set gs. \<forall>f \<in> set (files g). valid_path (path f)) \<longrightarrow>
          fst (startDuplicateReview p a folder now sg) =
            Shown (filter (\<lambda>g. \<not> (\<exists>d \<in> set (dismissedGroups p). sort d = sort (map path (files g)))) gs)
                  False"
  proof
    assume h: "dismissal_consistent p \<and>
          (\<forall>d \<in> set (dismissedGroups p). \<forall>q \<in> set d. valid_path q) \<and>
          (\<forall>g \<in> set gs. \<forall>f \<in> set (files g). valid_path (path f))"
    have ds: "dismissedSet ?p' = dismissedSet p" by (simp add: save_def)
    from h have h1: "dismissal_consistent p"
      and h2: "\<forall>d \<in> set (dismissedGroups p). \<forall>q \<in> set d. valid_path q"
      and h3: "\<forall>g \<in> set gs. \<forall>f \<in> set (files g). valid_path (path f)" by blast+
    show "fst (startDuplicateReview p a folder now sg) =
            Shown (filter (\<lambda>g. \<not> (\<exists>d \<in> set (dismissedGroups p). sort d = sort (map path (files g)))) gs)
                  False"
      unfolding r using filterDismissedGroups_eq [OF ds h1 h2 h3] by simp
  qed
  define D where "D = {d \<in> dirtyPaths ?cm. \<not> in_scope folder d}"
  have cm': "?cm' = ?put\<lparr> dirtyPaths := D \<rparr>"
    unfolding clearDirtyPathsForFolder_in_scope D_def by (simp add: put_def)
  have e: "entries ?cm' = entries ?put" unfolding cm' by simp
  obtain en where en: "entries ?put folder = Some en"
    and g1: "map s_normalizedTitle (groups en) = map normalizedTitle gs"
    and g2: "map s_originalTitles (groups en) = map originalTitles gs"
    and g3: "map filePaths (groups en) = map (\<lambda>g. map path (files g)) gs"
    and g4: "deserialize a en = deserialize_groups a (map serialize_group gs)"
    using put_stored_groups [of now ?cm folder ?fs gs ?cfg a] by blast
  have s1: "entries (cacheManager p1) folder = Some en" unfolding p1 using en e by (simp add: save_def)
  have s2: "stored_cache (data p1) folder = Some en" unfolding p1 using en e by (simp add: save_def)
  have c1: "cacheManager p2 = cacheManager p1" unfolding assms(5) dismissGroup_def by (simp add: Let_def)
  have c2: "stored_cache (data p2) = stored_cache (data p1)"
    unfolding assms(5) dismissGroup_def by (simp add: Let_def)
  have cfg2: "plugin_settings p2 = ?cfg" unfolding assms(5) p1 dismissGroup_def save_def by (simp add: Let_def)
  have cm2: "cacheManager p2 = ?put\<lparr> dirtyPaths := D \<rparr>"
    unfolding c1 unfolding p1 using cm' by (simp add: save_def)
  have nd: "\<not> (\<exists>d \<in> D. in_scope folder d)" unfolding D_def by simp
  have ns: "\<not> settings_differ (similarity_config ?cfg) ?cfg"
    unfolding settings_differ_def similarity_config_def by simp
  have hit: "get a (cacheManager p2) folder ?fs ?cfg = (Some (deserialize a en), cacheManager p2)"
    unfolding cm2 g4 using get_put [where a = a and now = now and cm = ?cm and fp = folder and fs = ?fs
                                     and gs = gs and cfg = ?cfg and D = D and cfg' = ?cfg] nd ns
    by simp
  have same: "p2\<lparr> cacheManager := cacheManager p2 \<rparr> = p2" by simp
  define visible where "visible = filter (\<lambda>g. \<not> isDismissed p2 (map path (files g))) (deserialize a en)"
  have r2: "startDuplicateReview p2 a folder now' sg' = (Shown visible True, p2)"
    unfolding startDuplicateReview_def Let_def cfg2 hit visible_def filterDismissedGroups_def
    by (simp add: same)
  have absent: "\<forall>g \<in> set visible. sort (map path (files g)) \<noteq> sort paths"
  proof
    fix g assume "g \<in> set visible"
    then have n: "\<not> isDismissed p2 (map path (files g))" unfolding visible_def by simp
    show "sort (map path (files g)) \<noteq> sort paths"
    proof
      assume "sort (map path (files g)) = sort paths"
      from isDismissed_dismissGroup [OF this] n show False unfolding assms(5) by blast
    qed
  qed
  have exact: "dismissal_consistent p \<and>
                   (\<forall>d \<in> set (dismissedGroups p). \<forall>q \<in> set d. valid_path q) \<and>
                   (\<forall>q \<in> set paths. valid_path q) \<and>
                   (\<forall>q f. getFileByPath a q = Some f \<longrightarrow> valid_path (path f)) \<longrightarrow>
                   visible = filter (\<lambda>g. \<not> (\<exists>d \<in> set (dismissedGroups p @ [sort paths]).
                                               sort d = sort (map path (files g))))
                               (deserialize a en)"
  proof
    assume h: "dismissal_consistent p \<and>
                   (\<forall>d \<in> set (dismissedGroups p). \<forall>q \<in> set d. valid_path q) \<and>
                   (\<forall>q \<in> set paths. valid_path q) \<and>
                   (\<forall>q f. getFileByPath a q = Some f \<longrightarrow> valid_path (path f))"
    then have h1: "dismissal_consistent p"
      and h2: "\<forall>d \<in> set (dismissedGroups p). \<forall>q \<in> set d. valid_path q"
      and h3: "\<forall>q \<in> set paths. valid_path q"
      and h4: "\<forall>q f. getFileByPath a q = Some f \<longrightarrow> valid_path (path f)" by blast+
    have k1: "dismissal_consistent p2"
      unfolding assms(5) assms(4)
      by (intro dismissal_consistent_dismissGroup dismissal_consistent_startDuplicateReview h1)
    have dg: "dismissedGroups p2 = dismissedGroups p @ [sort paths]"
      unfolding assms(5) p1 dismissGroup_def save_def by (simp add: Let_def)
    have k2: "\<forall>d \<in> set (dismissedGroups p2). \<forall>q \<in> set d. valid_path q"
      unfolding dg using h2 h3 by auto
    have k3: "\<forall>g \<in> set (deserialize a en). \<forall>f \<in> set (files g). valid_path (path f)"
    proof (intro ballI)
      fix g f assume g: "g \<in> set (deserialize a en)" and f: "f \<in> set (files g)"
      from g obtain ps where "files g = resolve_paths a ps"
        unfolding deserialize_def using deserialize_groups_files by blast
      with f resolve_paths_from_vault obtain q where "getFileByPath a q = Some f" by metis
      with h4 show "valid_path (path f)" by blast
    qed
    have "filterDismissedGroups p2 (deserialize a en) =
           filter (\<lambda>g. \<not> (\<exists>d \<in> set (dismissedGroups p2). sort d = sort (map path (files g))))
             (deserialize a en)"
      by (rule filterDismissedGroups_eq [OF refl k1 k2 k3])
    then show "visible = filter (\<lambda>g. \<not> (\<exists>d \<in> set (dismissedGroups p @ [sort paths]).
                                               sort d = sort (map path (files g))))
                               (deserialize a en)"
      unfolding visible_def filterDismissedGroups_def dg .
  qed
  have tight: "dismissal_consistent p \<and>
                   (\<forall>d \<in> set (dismissedGroups p). \<forall>q \<in> set d. valid_path q) \<and>
                   (\<forall>q \<in> set paths. valid_path q) \<and>
                   (\<forall>q f. getFileByPath a q = Some f \<longrightarrow> valid_path (path f)) \<and>
                   (\<forall>g \<in> set gs. 2 \<le> length (files g) \<and>
                      (\<forall>f \<in> set (files g). \<exists>f'. getFileByPath a (path f) = Some f' \<and> path f' = path f)) \<longrightarrow>
                   map (\<lambda>g. map path (files g)) visible =
                     filter (\<lambda>ps. \<not> (\<exists>d \<in> set (dismissedGroups p @ [sort paths]). sort d = sort ps))
                       (map (\<lambda>g. map path (files g)) gs)"
  proof
    assume h: "dismissal_consistent p \<and>
                   (\<forall>d \<in> set (dismissedGroups p). \<forall>q \<in> set d. valid_path q) \<and>
                   (\<forall>q \<in> set paths. valid_path q) \<and>
                   (\<forall>q f. getFileByPath a q = Some f \<longrightarrow> valid_path (path f)) \<and>
                   (\<forall>g \<in> set gs. 2 \<le> length (files g) \<and>
                      (\<forall>f \<in> set (files g). \<exists>f'. getFileByPath a (path f) = Some f' \<and> path f' = path f))"
    then have res: "\<forall>g \<in> set gs. 2 \<le> length (files g) \<and>
                      (\<forall>f \<in> set (files g). \<exists>f'. getFileByPath a (path f) = Some f' \<and> path f' = path f)"
      by blast
    from h exact have v: "visible = filter (\<lambda>g. \<not> (\<exists>d \<in> set (dismissedGroups p @ [sort paths]).
                                               sort d = sort (map path (files g))))
                               (deserialize a en)" by blast
    have "map (\<lambda>g. map path (files g)) visible =
            filter (\<lambda>ps. \<not> (\<exists>d \<in> set (dismissedGroups p @ [sort paths]). sort d = sort ps))
              (map (\<lambda>g. map path (files g)) (deserialize a en))"
      by (subst v) (simp add: filter_map comp_def)
    also have "map (\<lambda>g. map path (files g)) (deserialize a en) = map (\<lambda>g. map path (files g)) gs"
      unfolding g4 using deserialize_serialize [OF res] by blast
    finally show "map (\<lambda>g. map path (files g)) visible =
                     filter (\<lambda>ps. \<not> (\<exists>d \<in> set (dismissedGroups p @ [sort paths]). sort d = sort ps))
                       (map (\<lambda>g. map path (files g)) gs)" .
  qed
  have 3: "\<exists>visible. startDuplicateReview p2 a folder now' sg' = (Shown visible True, p2) \<and>
                  visible = filter (\<lambda>g. \<not> isDismissed p2 (map path (files g))) (deserialize a en) \<and>
                  (\<forall>g \<in> set visible. sort (map path (files g)) \<noteq> sort paths) \<and>
                  (dismissal_consistent p \<and>
                   (\<forall>d \<in> set (dismissedGroups p). \<forall>q \<in> set d. valid_path q) \<and>
                   (\<forall>q \<in> set paths. valid_path q) \<and>
                   (\<forall>q f. getFileByPath a q = Some f \<longrightarrow> valid_path (path f)) \<longrightarrow>
                   visible = filter (\<lambda>g. \<not> (\<exists>d \<in> set (dismissedGroups p @ [sort paths]).
                                               sort d = sort (map path (files g))))
                               (deserialize a en)) \<and>
                  (dismissal_consistent p \<and>
                   (\<forall>d \<in> set (dismissedGroups p). \<forall>q \<in> set d. valid_path q) \<and>
                   (\<forall>q \<in> set paths. valid_path q) \<and>
                   (\<forall>q f. getFileByPath a q = Some f \<longrightarrow> valid_path (path f)) \<and>
                   (\<forall>g \<in> set gs. 2 \<le> length (files g) \<and>
                      (\<forall>f \<in> set (files g). \<exists>f'. getFileByPath a (path f) = Some f' \<and> path f' = path f)) \<longrightarrow>
                   map (\<lambda>g. map path (files g)) visible =
                     filter (\<lambda>ps. \<not> (\<exists>d \<in> set (dismissedGroups p @ [sort paths]). sort d = sort ps))
                       (map (\<lambda>g. map path (files g)) gs))"
    using r2 absent exact tight visible_def by (intro exI [of _ visible] conjI)
  have 2: "\<exists>e. entries (cacheManager p1) folder = Some e \<and>
               stored_cache (data p1) folder = Some e \<and>
               map s_normalizedTitle (groups e) = map normalizedTitle gs \<and>
               map s_originalTitles (groups e) = map originalTitles gs \<and>
               map filePaths (groups e) = map (\<lambda>g. map path (files g)) gs \<and>
               cacheManager p2 = cacheManager p1 \<and>
               stored_cache (data p2) = stored_cache (data p1) \<and>
               (\<exists>visible. startDuplicateReview p2 a folder now' sg' = (Shown visible True, p2) \<and>
                  visible = filter (\<lambda>g. \<not> isDismissed p2 (map path (files g))) (deserialize a e) \<and>
                  (\<forall>g \<in> set visible. sort (map path (files g)) \<noteq> sort paths) \<and>
                  (dismissal_consistent p \<and>
                   (\<forall>d \<in> set (dismissedGroups p). \<forall>q \<in> set d. valid_path q) \<and>
                   (\<forall>q \<in> set paths. valid_path q) \<and>
                   (\<forall>q f. getFileByPath a q = Some f \<longrightarrow> valid_path (path f)) \<longrightarrow>
                   visible = filter (\<lambda>g. \<not> (\<exists>d \<in> set (dismissedGroups p @ [sort paths]).
                                               sort d = sort (map path (files g))))
                               (deserialize a e)) \<and>
                  (dismissal_consistent p \<and>
                   (\<forall>d \<in> set (dismissedGroups p). \<forall>q \<in> set d. valid_path q) \<and>
                   (\<forall>q \<in> set paths. valid_path q) \<and>
                   (\<forall>q f. getFileByPath a q = Some f \<longrightarrow> valid_path (path f)) \<and>
                   (\<forall>g \<in> set gs. 2 \<le> length (files g) \<and>
                      (\<forall>f \<in> set (files g). \<exists>f'. getFileByPath a (path f) = Some f' \<and> path f' = path f)) \<longrightarrow>
                   map (\<lambda>g. map path (files g)) visible =
                     filter (\<lambda>ps. \<not> (\<exists>d \<in> set (dismissedGroups p @ [sort paths]). sort d = sort ps))
                       (map (\<lambda>g. map path (files g)) gs)))"
    using s1 s2 g1 g2 g3 c1 c2 3 by (intro exI [of _ en] conjI)
  from 1 2 show ?thesis by (rule conjI)
qed

theorem dismissal_filters_view_not_cache_witness:
  "fst (startDuplicateReview ex_plugin_fresh ex_vault_two ''/'' 5 never_aborted)
     = Shown [ex_notes_group, ex_plan_group] False \<and>
   (\<exists>e. entries (cacheManager ex_reviewed) ''/'' = Some e \<and>
        stored_cache (data ex_reviewed) ''/'' = Some e \<and>
        map filePaths (groups e) = [[''n/Notes.md'', ''m/Notes.md''], [''n/Plan.md'', ''m/Plan.md'']]) \<and>
   startDuplicateReview ex_dismissed ex_vault_two ''/'' 6 never_aborted
     = (Shown [ex_plan_group\<lparr> candidates := [] \<rparr>] True, ex_dismissed) \<and>
   (\<exists>e. entries (cacheManager ex_dismissed) ''/'' = Some e \<and>
        stored_cache (data ex_dismissed) ''/'' = Some e \<and>
        map filePaths (groups e) = [[''n/Notes.md'', ''m/Notes.md''], [''n/Plan.md'', ''m/Plan.md'']]) \<and>
   (\<exists>visible. startDuplicateReview ex_dismissed ex_vault_two ''/'' 6 never_aborted
                 = (Shown visible True, ex_dismissed) \<and>
        map (\<lambda>g. map path (files g)) visible = [[''n/Plan.md'', ''m/Plan.md'']] \<and>
        \<not> (\<exists>g \<in> set visible. sort (map path (files g)) = sort [''n/Notes.md'', ''m/Notes.md''])) \<and>
   fst (startDuplicateReview ex_plugin ex_vault_two ''/'' 5 never_aborted) = Shown [ex_plan_group] False"
proof -
  have h1: "fst (get ex_vault_two (cacheManager ex_plugin_fresh) ''/''
                 (collectMarkdownFiles ex_vault_two ''/'' (ignoredFolders (plugin_settings ex_plugin_fresh)))
                 (plugin_settings ex_plugin_fresh)) = None"
    by (simp add: get_def ex_plugin_fresh_def ex_cm_clean_def)
  have h2: "scanForDuplicates ex_vault_two ''/'' (plugin_settings ex_plugin_fresh)
              (enableContentSimilarity (plugin_settings ex_plugin_fresh)) never_aborted
            = Inr [ex_notes_group, ex_plan_group]"
    by code_simp
  have h3: "\<not> aborted_after_scan never_aborted"
    by (simp add: never_aborted_def)
  have c: "dismissal_consistent ex_plugin_fresh \<and>
          (\<forall>d \<in> set (dismissedGroups ex_plugin_fresh). \<forall>q \<in> set d. valid_path q) \<and>
          (\<forall>g \<in> set [ex_notes_group, ex_plan_group]. \<forall>f \<in> set (files g). valid_path (path f))"
    by (simp add: dismissal_consistent_def ex_plugin_fresh_def ex_notes_group_def ex_plan_group_def
          ex_noteA_def ex_noteB_def ex_planA_def ex_planB_def valid_path_def)
  have f: "filter (\<lambda>g. \<not> (\<exists>d \<in> set (dismissedGroups ex_plugin_fresh). sort d = sort (map path (files g))))
             [ex_notes_group, ex_plan_group] = [ex_notes_group, ex_plan_group]"
    by (simp add: ex_plugin_fresh_def)
  have m: "map (\<lambda>g. map path (files g)) [ex_notes_group, ex_plan_group]
             = [[''n/Notes.md'', ''m/Notes.md''], [''n/Plan.md'', ''m/Plan.md'']]"
    by (simp add: ex_notes_group_def ex_plan_group_def ex_noteA_def ex_noteB_def ex_planA_def ex_planB_def)
  have v: "fst (startDuplicateReview ex_dismissed ex_vault_two ''/'' 6 never_aborted)
             = Shown [ex_plan_group\<lparr> candidates := [] \<rparr>] True"
    by code_simp
  note t = dismissal_filters_view_not_cache [OF h1 h2 h3 ex_reviewed_def ex_dismissed_def,
             where now' = 6 and sg' = never_aborted]
  from t c have 1: "fst (startDuplicateReview ex_plugin_fresh ex_vault_two ''/'' 5 never_aborted)
     = Shown [ex_notes_group, ex_plan_group] False"
    unfolding f by blast
  from t obtain e visible where e: "entries (cacheManager ex_reviewed) ''/'' = Some e"
    "stored_cache (data ex_reviewed) ''/'' = Some e"
    "map filePaths (groups e) = map (\<lambda>g. map path (files g)) [ex_notes_group, ex_plan_group]"
    "cacheManager ex_dismissed = cacheManager ex_reviewed"
    "stored_cache (data ex_dismissed) = stored_cache (data ex_reviewed)"
    and r: "startDuplicateReview ex_dismissed ex_vault_two ''/'' 6 never_aborted
              = (Shown visible True, ex_dismissed)"
    and ab: "\<forall>g \<in> set visible. sort (map path (files g)) \<noteq> sort [''n/Notes.md'', ''m/Notes.md'']"
    and ti: "dismissal_consistent ex_plugin_fresh \<and>
             (\<forall>d \<in> set (dismissedGroups ex_plugin_fresh). \<forall>q \<in> set d. valid_path q) \<and>
             (\<forall>q \<in> set [''n/Notes.md'', ''m/Notes.md'']. valid_path q) \<and>
             (\<forall>q f. getFileByPath ex_vault_two q = Some f \<longrightarrow> valid_path (path f)) \<and>
             (\<forall>g \<in> set [ex_notes_group, ex_plan_group]. 2 \<le> length (files g) \<and>
                (\<forall>f \<in> set (files g). \<exists>f'. getFileByPath ex_vault_two (path f) = Some f' \<and>
                                                 path f' = path f)) \<longrightarrow>
             map (\<lambda>g. map path (files g)) visible =
               filter (\<lambda>ps. \<not> (\<exists>d \<in> set (dismissedGroups ex_plugin_fresh @
                                               [sort [''n/Notes.md'', ''m/Notes.md'']]).
                                     sort d = sort ps))
                 (map (\<lambda>g. map path (files g)) [ex_notes_group, ex_plan_group])"
    by blast
  have a1: "\<forall>q \<in> set [''n/Notes.md'', ''m/Notes.md'']. valid_path q"
    by (simp add: valid_path_def)
  have a2: "\<forall>q f. getFileByPath ex_vault_two q = Some f \<longrightarrow> valid_path (path f)"
    by (auto simp: ex_vault_two_def valid_path_def ex_noteA_def ex_noteB_def ex_planA_def ex_planB_def
             split: if_splits)
  have a3: "\<forall>g \<in> set [ex_notes_group, ex_plan_group]. 2 \<le> length (files g) \<and>
                (\<forall>f \<in> set (files g). \<exists>f'. getFileByPath ex_vault_two (path f) = Some f' \<and>
                                                 path f' = path f)"
    by (simp add: ex_vault_two_def ex_notes_group_def ex_plan_group_def
          ex_noteA_def ex_noteB_def ex_planA_def ex_planB_def)
  have a4: "filter (\<lambda>ps. \<not> (\<exists>d \<in> set (dismissedGroups ex_plugin_fresh @
                                               [sort [''n/Notes.md'', ''m/Notes.md'']]).
                                     sort d = sort ps))
                 (map (\<lambda>g. map path (files g)) [ex_notes_group, ex_plan_group])
            = [[''n/Plan.md'', ''m/Plan.md'']]"
    by code_simp
  from ti c a1 a2 a3 have mv: "map (\<lambda>g. map path (files g)) visible = [[''n/Plan.md'', ''m/Plan.md'']]"
    unfolding a4 by blast
  have nab: "\<not> (\<exists>g \<in> set visible. sort (map path (files g)) = sort [''n/Notes.md'', ''m/Notes.md''])"
  proof
    assume "\<exists>g \<in> set visible. sort (map path (files g)) = sort [''n/Notes.md'', ''m/Notes.md'']"
    then obtain g where g: "g \<in> set visible"
      and eq: "sort (map path (files g)) = sort [''n/Notes.md'', ''m/Notes.md'']" ..
    from ab g have "sort (map path (files g)) \<noteq> sort [''n/Notes.md'', ''m/Notes.md'']" ..
    from this eq show False by (rule notE)
  qed
  from r mv nab have 6: "\<exists>visible. startDuplicateReview ex_dismissed ex_vault_two ''/'' 6 never_aborted
                 = (Shown visible True, ex_dismissed) \<and>
        map (\<lambda>g. map path (files g)) visible = [[''n/Plan.md'', ''m/Plan.md'']] \<and>
        \<not> (\<exists>g \<in> set visible. sort (map path (files g)) = sort [''n/Notes.md'', ''m/Notes.md''])"
    by (intro exI [of _ visible] conjI)
  from r v have 3: "startDuplicateReview ex_dismissed ex_vault_two ''/'' 6 never_aborted
     = (Shown [ex_plan_group\<lparr> candidates := [] \<rparr>] True, ex_dismissed)"
    by simp
  note e3 = e(3) [unfolded m]
  have 2: "\<exists>e. entries (cacheManager ex_reviewed) ''/'' = Some e \<and>
        stored_cache (data ex_reviewed) ''/'' = Some e \<and>
        map filePaths (groups e) = [[''n/Notes.md'', ''m/Notes.md''], [''n/Plan.md'', ''m/Plan.md'']]"
    using e(1,2) e3 by (intro exI [of _ e] conjI)
  have "entries (cacheManager ex_dismissed) ''/'' = Some e"
    "stored_cache (data ex_dismissed) ''/'' = Some e"
    unfolding e(4,5) by (rule e(1), rule e(2))
  then have 4: "\<exists>e. entries (cacheManager ex_dismissed) ''/'' = Some e \<and>
        stored_cache (data ex_dismissed) ''/'' = Some e \<and>
        map filePaths (groups e) = [[''n/Notes.md'', ''m/Notes.md''], [''n/Plan.md'', ''m/Plan.md'']]"
    using e3 by (intro exI [of _ e] conjI)
  have k1: "fst (get ex_vault_two (cacheManager ex_plugin) ''/''
                 (collectMarkdownFiles ex_vault_two ''/'' (ignoredFolders (plugin_settings ex_plugin)))
                 (plugin_settings ex_plugin)) = None"
    by (simp add: get_def ex_plugin_def ex_cm_clean_def)
  have k2: "scanForDuplicates ex_vault_two ''/'' (plugin_settings ex_plugin)
              (enableContentSimilarity (plugin_settings ex_plugin)) never_aborted
            = Inr [ex_notes_group, ex_plan_group]"
    by code_simp
  have kc: "dismissal_consistent ex_plugin \<and>
          (\<forall>d \<in> set (dismissedGroups ex_plugin). \<forall>q \<in> set d. valid_path q) \<and>
          (\<forall>g \<in> set [ex_notes_group, ex_plan_group]. \<forall>f \<in> set (files g). valid_path (path f))"
    by (simp add: dismissal_consistent_def ex_plugin_def ex_notes_group_def ex_plan_group_def
          ex_noteA_def ex_noteB_def ex_planA_def ex_planB_def valid_path_def)
  have kf: "filter (\<lambda>g. \<not> (\<exists>d \<in> set (dismissedGroups ex_plugin). sort d = sort (map path (files g))))
             [ex_notes_group, ex_plan_group] = [ex_plan_group]"
    by code_simp
  from dismissal_filters_view_not_cache [OF k1 k2 h3 refl refl, where now = 5] kc
  have 5: "fst (startDuplicateReview ex_plugin ex_vault_two ''/'' 5 never_aborted) = Shown [ex_plan_group] False"
    unfolding kf by blast
  from 1 2 3 4 6 5 show ?thesis by (intro conjI)
qed

end
